theory Spec2Isabelle
  imports Main
begin

section \<open>States (states.js)\<close>

datatype CellState = INITIAL | OPENED | MARKED_AS_BOMB | DEFUSED | DETONATED

datatype GameState = INITIATED | READY | RUNNING | WIN | LOSS

section \<open>Cell\<close>

text \<open>
  A \<open>Cell\<close> holds the two private fields \<open>_isBomb\<close> and \<open>_state\<close>. The position that
  the field engine attaches to a cell (\<open>cell._position\<close>) is the key under which the
  grid stores the cell, see \<open>gameField\<close> below. Every operation returns the flag the
  JavaScript method returns together with the cell after the call. None of them has
  a \<open>throw\<close>, reads anything but the two fields, or calls anything that could fail, so
  they are total functions without an error result.
\<close>

record Cell =
  isBomb :: bool
  state :: CellState

definition newCell :: Cell where
  "newCell = \<lparr>isBomb = False, state = INITIAL\<rparr>"

definition openOrDoOtherIfBomb :: "CellState \<Rightarrow> Cell \<Rightarrow> bool \<times> Cell" where
  "openOrDoOtherIfBomb otherState c =
     (if state c = INITIAL \<or> state c = MARKED_AS_BOMB
      then (True, c\<lparr>state := (if isBomb c then otherState else OPENED)\<rparr>)
      else (False, c))"

definition openOrDetonate :: "Cell \<Rightarrow> bool \<times> Cell" where
  "openOrDetonate c = openOrDoOtherIfBomb DETONATED c"

definition openOrDefuse :: "Cell \<Rightarrow> bool \<times> Cell" where
  "openOrDefuse c = openOrDoOtherIfBomb DEFUSED c"

definition toggleBombMark :: "Cell \<Rightarrow> bool \<times> Cell" where
  "toggleBombMark c =
     (let initialState = state c;
          c' = (case state c of
                  MARKED_AS_BOMB \<Rightarrow> c\<lparr>state := INITIAL\<rparr>
                | INITIAL \<Rightarrow> c\<lparr>state := MARKED_AS_BOMB\<rparr>
                | _ \<Rightarrow> c)
      in (initialState \<noteq> state c', c'))"

definition clear :: "Cell \<Rightarrow> bool \<times> Cell" where
  "clear c =
     (let c1 = c\<lparr>isBomb := False\<rparr>
      in if state c1 \<noteq> INITIAL then (True, c1\<lparr>state := INITIAL\<rparr>) else (False, c1))"

section \<open>The field engine: data\<close>

text \<open>
  The grid \<open>_gameField\<close> is an array of \<open>fieldSize\<close> arrays of \<open>fieldSize\<close> cells. It is
  modelled as a function from positions \<open>(x, y)\<close> to cells, of which only the positions
  with \<open>x < fieldSize\<close> and \<open>y < fieldSize\<close> are slots of the arrays; every read in the
  engine that is not already inside that range by construction goes through the
  explicit range test of \<open>lookupCell\<close>. \<open>fieldSize\<close> and \<open>bombNumber\<close> are a side length
  and a number of bombs and are modelled as natural numbers; for a length that is negative or
  fractional, \<open>new Array (fieldSize)\<close> throws in the constructor and there is no engine.

  The two optional callbacks \<open>onCellStateChanged\<close> and \<open>onGameStateChanged\<close> are modelled by
  the list \<open>notifications\<close> of the calls made to them, oldest first.
\<close>

type_synonym pos = "nat \<times> nat"

datatype Notification =
    CellStateChanged nat nat CellState "nat option"
  | GameStateChanged GameState

record Minesweeper =
  fieldSize :: nat
  bombNumber :: nat
  gameState :: GameState
  gameField :: "pos \<Rightarrow> Cell"
  notifications :: "Notification list"

datatype error = TypeError

definition inRange :: "nat \<Rightarrow> pos \<Rightarrow> bool" where
  "inRange n p = (fst p < n \<and> snd p < n)"

text \<open>
  \<open>this._gameField[x][y]\<close> for numbers \<open>x\<close> and \<open>y\<close>: outside the arrays the read gives
  \<open>undefined\<close>, and either the second indexing (\<open>x\<close> out of range) or the first method
  call on the cell (\<open>y\<close> out of range) throws a TypeError.
\<close>

definition lookupCell :: "Minesweeper \<Rightarrow> int \<Rightarrow> int \<Rightarrow> pos option" where
  "lookupCell g x y =
     (if 0 \<le> x \<and> x < int (fieldSize g) \<and> 0 \<le> y \<and> y < int (fieldSize g)
      then Some (nat x, nat y) else None)"

definition cellsOfRow :: "nat \<Rightarrow> nat \<Rightarrow> nat \<Rightarrow> pos list" where
  "cellsOfRow i lo hi = map (\<lambda>j. (i, j)) [lo..<hi]"

text \<open>The positions \<open>_forEachCell\<close> visits, in its order.\<close>

definition allPositions :: "nat \<Rightarrow> pos list" where
  "allPositions n = concat (map (\<lambda>i. cellsOfRow i 0 n) [0..<n])"

text \<open>
  The positions \<open>_forEachAdjacentCell\<close> visits, in its order: \<open>i\<close> from
  \<open>max (x - 1) 0\<close> to \<open>min (x + 1) (fieldSize - 1)\<close>, \<open>j\<close> likewise, without the cell itself.
  On naturals \<open>x - 1\<close> is already \<open>max (x - 1) 0\<close>.
\<close>

definition adjacentPositions :: "nat \<Rightarrow> pos \<Rightarrow> pos list" where
  "adjacentPositions n p =
     filter (\<lambda>q. q \<noteq> p)
       (concat (map (\<lambda>i. cellsOfRow i (snd p - 1) (min (snd p + 2) n))
                    [fst p - 1..<min (fst p + 2) n]))"

text \<open>
  Both iterators call \<open>func\<close> on each position in turn and stop as soon as it returns a
  true value. The callback is a function from the position and the state threaded
  through the loop to the stop flag and the new state.
\<close>

fun forEachPos :: "(pos \<Rightarrow> 's \<Rightarrow> bool \<times> 's) \<Rightarrow> pos list \<Rightarrow> 's \<Rightarrow> 's" where
  "forEachPos func [] s = s"
| "forEachPos func (p # ps) s =
     (case func p s of (canBeStopped, s') \<Rightarrow>
        if canBeStopped then s' else forEachPos func ps s')"

definition forEachCell :: "nat \<Rightarrow> (pos \<Rightarrow> 's \<Rightarrow> bool \<times> 's) \<Rightarrow> 's \<Rightarrow> 's" where
  "forEachCell n func s = forEachPos func (allPositions n) s"

definition forEachAdjacentCell :: "nat \<Rightarrow> (pos \<Rightarrow> 's \<Rightarrow> bool \<times> 's) \<Rightarrow> pos \<Rightarrow> 's \<Rightarrow> 's" where
  "forEachAdjacentCell n func p s = forEachPos func (adjacentPositions n p) s"

section \<open>The field engine: helpers\<close>

definition setCell :: "Minesweeper \<Rightarrow> pos \<Rightarrow> Cell \<Rightarrow> Minesweeper" where
  "setCell g p c = g\<lparr>gameField := (gameField g)(p := c)\<rparr>"

definition getNumberAdjacentBombs :: "Minesweeper \<Rightarrow> pos \<Rightarrow> nat" where
  "getNumberAdjacentBombs g p =
     forEachAdjacentCell (fieldSize g)
       (\<lambda>q number. (False, if isBomb (gameField g q) then number + 1 else number)) p 0"

definition allAdjacentCellsAreBombs :: "Minesweeper \<Rightarrow> pos \<Rightarrow> bool" where
  "allAdjacentCellsAreBombs g p =
     forEachAdjacentCell (fieldSize g)
       (\<lambda>q allBombs. if \<not> isBomb (gameField g q) then (True, False) else (False, allBombs)) p True"

definition getCellData :: "Minesweeper \<Rightarrow> pos \<Rightarrow> CellState \<times> nat option" where
  "getCellData g p =
     (let st = state (gameField g p)
      in (st, if st = OPENED then Some (getNumberAdjacentBombs g p) else None))"

definition notifyCellStateChanged :: "Minesweeper \<Rightarrow> pos \<Rightarrow> Minesweeper" where
  "notifyCellStateChanged g p =
     (case getCellData g p of (st, numberBombs) \<Rightarrow>
        g\<lparr>notifications := notifications g @ [CellStateChanged (fst p) (snd p) st numberBombs]\<rparr>)"

definition notifyGameStateChanged :: "Minesweeper \<Rightarrow> Minesweeper" where
  "notifyGameStateChanged g = g\<lparr>notifications := notifications g @ [GameStateChanged (gameState g)]\<rparr>"

definition setGameState :: "Minesweeper \<Rightarrow> GameState \<Rightarrow> Minesweeper" where
  "setGameState g newState = notifyGameStateChanged (g\<lparr>gameState := newState\<rparr>)"

definition startGameIfNeeded :: "Minesweeper \<Rightarrow> bool \<times> Minesweeper" where
  "startGameIfNeeded g =
     (let g' = (if gameState g = READY then setGameState g RUNNING else g)
      in (gameState g' = RUNNING, g'))"

text \<open>
  Applies a cell operation to the cell at \<open>p\<close>, stores the cell back and notifies when
  the operation reports a change: the body shared by the callbacks of the clearing pass,
  of \<open>_setLoss\<close> and of the winning pass of \<open>_setWinIfNeeded\<close>.
\<close>

definition applyAndNotify :: "(Cell \<Rightarrow> bool \<times> Cell) \<Rightarrow> pos \<Rightarrow> Minesweeper \<Rightarrow> Minesweeper" where
  "applyAndNotify operation p g =
     (case operation (gameField g p) of (stateChanged, c') \<Rightarrow>
        if stateChanged then notifyCellStateChanged (setCell g p c') p else setCell g p c')"

section \<open>Bomb placement\<close>

text \<open>
  \<open>Math.random\<close> is modelled by an oracle \<open>rnd\<close>: the loop's iteration \<open>k\<close> draws the pair
  \<open>rnd k\<close>, and \<open>Math.floor (Math.random () * fieldSize)\<close>, an integer of
  \<open>[0, fieldSize)\<close>, is the draw reduced modulo \<open>fieldSize\<close>. Every position the source can
  draw is the reduction of some oracle value, and no other position is.
\<close>

definition drawPosition :: "(nat \<Rightarrow> nat \<times> nat) \<Rightarrow> nat \<Rightarrow> nat \<Rightarrow> pos" where
  "drawPosition rnd n k = (fst (rnd k) mod n, snd (rnd k) mod n)"

definition setIsBomb :: "Minesweeper \<Rightarrow> pos \<Rightarrow> bool \<Rightarrow> Minesweeper" where
  "setIsBomb g p b = setCell g p ((gameField g p)\<lparr>isBomb := b\<rparr>)"

text \<open>
  The value of \<open>bombCanBeSetHere\<close> at the end of the loop body. The fake bomb is set in
  the selected cell for the test of the adjacent cells and cleared again, which leaves the
  grid as it was, because the cell had no bomb.
\<close>

definition bombCanBeSetHere :: "Minesweeper \<Rightarrow> pos \<Rightarrow> bool" where
  "bombCanBeSetHere g selected =
     (if \<not> isBomb (gameField g selected) then
        (let thereIsAtLeastOneAdjacentCellWithoutBomb = \<not> allAdjacentCellsAreBombs g selected
         in if thereIsAtLeastOneAdjacentCellWithoutBomb then
              (let fake = setIsBomb g selected True
               in forEachAdjacentCell (fieldSize g)
                    (\<lambda>q can. if isBomb (gameField fake q) \<and> allAdjacentCellsAreBombs fake q
                              then (True, False) else (False, can))
                    selected thereIsAtLeastOneAdjacentCellWithoutBomb)
            else thereIsAtLeastOneAdjacentCellWithoutBomb)
      else False)"

text \<open>
  The state of the placement loop: the grid, \<open>numberSetBombs\<close>,
  \<open>admissibleNumberFailedAttemptsToPutBomb\<close> and the number of iterations made so far,
  which is also the index of the next draw.
\<close>

record Placement =
  field :: Minesweeper
  numberSetBombs :: nat
  admissible :: nat
  iterations :: nat

function placeBombs :: "(nat \<Rightarrow> nat \<times> nat) \<Rightarrow> Placement \<Rightarrow> Placement" where
  "placeBombs rnd s =
     (if numberSetBombs s < bombNumber (field s) \<and> admissible s \<noteq> 0 then
        (if bombCanBeSetHere (field s) (drawPosition rnd (fieldSize (field s)) (iterations s))
         then placeBombs rnd
                (s\<lparr>field := setIsBomb (field s)
                               (drawPosition rnd (fieldSize (field s)) (iterations s)) True,
                   numberSetBombs := numberSetBombs s + 1,
                   iterations := iterations s + 1\<rparr>)
         else placeBombs rnd
                (s\<lparr>admissible := admissible s - 1, iterations := iterations s + 1\<rparr>))
      else s)"
  by pat_completeness auto
termination
  by (relation "measure (\<lambda>(rnd, s). (bombNumber (field s) - numberSetBombs s) + admissible s)")
     (auto simp: setIsBomb_def setCell_def)

declare placeBombs.simps [simp del]

definition clearCells :: "Minesweeper \<Rightarrow> Minesweeper" where
  "clearCells g = forEachCell (fieldSize g) (\<lambda>p g'. (False, applyAndNotify clear p g')) g"

definition placement :: "Minesweeper \<Rightarrow> (nat \<Rightarrow> nat \<times> nat) \<Rightarrow> Placement" where
  "placement g rnd =
     placeBombs rnd \<lparr>field = clearCells g, numberSetBombs = 0,
                     admissible = fieldSize g * fieldSize g, iterations = 0\<rparr>"

definition setBombsOnGameField :: "Minesweeper \<Rightarrow> (nat \<Rightarrow> nat \<times> nat) \<Rightarrow> Minesweeper" where
  "setBombsOnGameField g rnd = setGameState (field (placement g rnd)) READY"

text \<open>
  The constructor. Its arrays have no cell yet when it calls \<open>_setBombsOnGameField\<close>, whose
  first pass then stores a \<open>new Cell ()\<close> in every slot without notification. The model
  starts from a grid of new cells, on which the clearing branch of that pass does the
  same: \<open>clear\<close> reports no change on a new cell and leaves it as it is.
\<close>

definition initiated :: "nat \<Rightarrow> nat \<Rightarrow> Minesweeper" where
  "initiated n b =
     \<lparr>fieldSize = n, bombNumber = b, gameState = INITIATED,
      gameField = (\<lambda>p. newCell), notifications = []\<rparr>"

definition Minesweeper :: "nat \<Rightarrow> nat \<Rightarrow> (nat \<Rightarrow> nat \<times> nat) \<Rightarrow> Minesweeper" where
  "Minesweeper n b rnd = setBombsOnGameField (initiated n b) rnd"

definition restartGame :: "Minesweeper \<Rightarrow> (nat \<Rightarrow> nat \<times> nat) \<Rightarrow> Minesweeper" where
  "restartGame g rnd = setBombsOnGameField g rnd"

section \<open>Opening cells, winning and losing\<close>

definition setLoss :: "Minesweeper \<Rightarrow> Minesweeper" where
  "setLoss g =
     setGameState
       (forEachCell (fieldSize g) (\<lambda>p g'. (False, applyAndNotify openOrDetonate p g')) g)
       LOSS"

definition setWinIfNeeded :: "Minesweeper \<Rightarrow> Minesweeper" where
  "setWinIfNeeded g =
     (if gameState g \<noteq> RUNNING then g
      else
        (let win = forEachCell (fieldSize g)
                     (\<lambda>p win. if state (gameField g p) = INITIAL
                                   \<or> (state (gameField g p) = MARKED_AS_BOMB
                                       \<and> \<not> isBomb (gameField g p))
                               then (True, False) else (False, win))
                     True
         in if win
            then setGameState
                   (forEachCell (fieldSize g)
                      (\<lambda>p g'. (False, applyAndNotify openOrDefuse p g')) g)
                   WIN
            else g))"

text \<open>
  \<open>_openCell\<close> calls itself from the callback of \<open>_forEachAdjacentCell\<close>, on the grid as
  the calls before it have left it. \<open>openCellRec\<close> is the method as it is written, and
  \<open>openAdjacentRec\<close> its loop over the adjacent cells, with a bound on the depth of the
  recursion: \<open>None\<close> says that the bound was reached. The callback returns nothing, so
  the loop is never stopped early; in particular it goes on after \<open>_setLoss\<close>. A
  position outside the grid would stand for the value \<open>undefined\<close>, on which
  \<open>cell.openOrDetonate ()\<close> throws.
\<close>

fun openCellRec :: "nat \<Rightarrow> Minesweeper \<Rightarrow> pos \<Rightarrow> (error + Minesweeper) option"
  and openAdjacentRec :: "nat \<Rightarrow> Minesweeper \<Rightarrow> pos list \<Rightarrow> (error + Minesweeper) option" where
  "openCellRec 0 g p = None"
| "openCellRec (Suc depth) g p =
     (if \<not> inRange (fieldSize g) p then Some (Inl TypeError)
      else
        (let stateChanged = fst (openOrDetonate (gameField g p));
             g1 = applyAndNotify openOrDetonate p g
         in if stateChanged then
              (if state (gameField g1 p) = DETONATED then Some (Inr (setLoss g1))
               else if getNumberAdjacentBombs g1 p = 0
                    then openAdjacentRec depth g1 (adjacentPositions (fieldSize g1) p)
                    else Some (Inr g1))
            else Some (Inr g1)))"
| "openAdjacentRec depth g [] = Some (Inr g)"
| "openAdjacentRec depth g (q # qs) =
     (case openCellRec depth g q of
        None \<Rightarrow> None
      | Some (Inl e) \<Rightarrow> Some (Inl e)
      | Some (Inr g') \<Rightarrow> openAdjacentRec depth g' qs)"

text \<open>
  The same computation without a bound, which is the one the commands use. It makes the
  call stack explicit:
  \<open>openCells g ps\<close> runs \<open>_openCell\<close> on the head of \<open>ps\<close>, and the positions behind the
  head are those that the enclosing \<open>_forEachAdjacentCell\<close> loops have still to visit, the
  innermost loop first. Where the source recurses into the adjacent cells, their
  positions are put in front of the pending ones; where a call returns, the model goes on
  with the pending ones. \<open>_openCell (cell)\<close> for the cell at \<open>p\<close> is \<open>openCells g [p]\<close>:
  lemma \<open>openCells_is_the_recursion\<close> below shows that \<open>openCellRec\<close> returns it whenever
  its bound exceeds the number of cells that can still change. The recursion of
  \<open>openCells\<close> ends because every call either changes such a cell or shortens the stack.
\<close>

function openCells :: "Minesweeper \<Rightarrow> pos list \<Rightarrow> error + Minesweeper" where
  "openCells g [] = Inr g"
| "openCells g (p # ps) =
     (if \<not> inRange (fieldSize g) p then Inl TypeError
      else
        (let stateChanged = fst (openOrDetonate (gameField g p));
             g1 = applyAndNotify openOrDetonate p g
         in if stateChanged then
              (if state (gameField g1 p) = DETONATED then openCells (setLoss g1) ps
               else if getNumberAdjacentBombs g1 p = 0
                    then openCells g1 (adjacentPositions (fieldSize g1) p @ ps)
                    else openCells g1 ps)
            else openCells g1 ps))"
  by pat_completeness auto

text \<open>The number of cells that can still change: the measure of the recursion.\<close>

definition unsettled :: "Minesweeper \<Rightarrow> nat" where
  "unsettled g =
     length (filter (\<lambda>p. state (gameField g p) = INITIAL \<or> state (gameField g p) = MARKED_AS_BOMB)
               (allPositions (fieldSize g)))"

section \<open>Commands\<close>

text \<open>
  A command returns \<open>Inr\<close> of the engine after the call, or \<open>Inl\<close> of the error thrown
  and the engine as the throw leaves it.
\<close>

definition openCell :: "Minesweeper \<Rightarrow> int \<Rightarrow> int \<Rightarrow> (error \<times> Minesweeper) + Minesweeper" where
  "openCell g x y =
     (case startGameIfNeeded g of (running, g1) \<Rightarrow>
        if \<not> running then Inr g1
        else
          (case lookupCell g1 x y of
             None \<Rightarrow> Inl (TypeError, g1)
           | Some p \<Rightarrow>
               (case openCells g1 [p] of
                  Inl e \<Rightarrow> Inl (e, g1)
                | Inr g2 \<Rightarrow> Inr (setWinIfNeeded g2))))"

definition toggleCellBombMark :: "Minesweeper \<Rightarrow> int \<Rightarrow> int \<Rightarrow> (error \<times> Minesweeper) + Minesweeper" where
  "toggleCellBombMark g x y =
     (case startGameIfNeeded g of (running, g1) \<Rightarrow>
        if \<not> running then Inr g1
        else
          (case lookupCell g1 x y of
             None \<Rightarrow> Inl (TypeError, g1)
           | Some p \<Rightarrow>
               (case toggleBombMark (gameField g1 p) of (stateChanged, c') \<Rightarrow>
                  if stateChanged
                  then Inr (setWinIfNeeded (notifyCellStateChanged (setCell g1 p c') p))
                  else Inr (setCell g1 p c'))))"

section \<open>Notions used in the properties\<close>

text \<open>A cell that an open or a mark can still change.\<close>

definition unsettledCell :: "Cell \<Rightarrow> bool" where
  "unsettledCell c = (state c = INITIAL \<or> state c = MARKED_AS_BOMB)"

text \<open>The number of cells of the grid that hold a bomb.\<close>

definition numberOfBombs :: "Minesweeper \<Rightarrow> nat" where
  "numberOfBombs g =
     length (filter (\<lambda>p. isBomb (gameField g p)) (allPositions (fieldSize g)))"

text \<open>No cell that holds a bomb has a bomb in every adjacent cell.\<close>

definition noBombSurrounded :: "Minesweeper \<Rightarrow> bool" where
  "noBombSurrounded g =
     list_all (\<lambda>p. \<not> (isBomb (gameField g p) \<and> allAdjacentCellsAreBombs g p))
       (allPositions (fieldSize g))"

text \<open>An oracle whose first three draws are the three cells around the corner \<open>(0, 0)\<close>.\<close>

definition cornerDraws :: "nat \<Rightarrow> nat \<times> nat" where
  "cornerDraws k = (if k = 0 then (0, 1) else if k = 1 then (1, 0) else (1, 1))"

text \<open>
  Going on with the pending positions after a call has returned or thrown, and what it
  means for a bounded recursion on the positions \<open>qs\<close> to agree with \<open>openCells\<close>.
\<close>

definition andThen :: "error + Minesweeper \<Rightarrow> pos list \<Rightarrow> error + Minesweeper" where
  "andThen r ps = (case r of Inl e \<Rightarrow> Inl e | Inr g \<Rightarrow> openCells g ps)"

definition agrees :: "Minesweeper \<Rightarrow> pos list \<Rightarrow> (error + Minesweeper) option \<Rightarrow> bool" where
  "agrees g qs res =
     (\<exists>r. res = Some r \<and> (\<forall>ps. openCells g (qs @ ps) = andThen r ps)
          \<and> (\<forall>g'. r = Inr g' \<longrightarrow> unsettled g' \<le> unsettled g))"

text \<open>
  A cell that keeps \<open>_setWinIfNeeded\<close> from declaring the game won: the condition of its
  first callback.
\<close>

definition preventsWin :: "Cell \<Rightarrow> bool" where
  "preventsWin c = (state c = INITIAL \<or> (state c = MARKED_AS_BOMB \<and> \<not> isBomb c))"

text \<open>
  Sequences of commands. A call that throws leaves the engine as it is at the throw, and
  the caller can go on using it.
\<close>

datatype Command =
    OpenCell int int
  | ToggleCellBombMark int int
  | RestartGame "nat \<Rightarrow> nat \<times> nat"

definition afterCall :: "(error \<times> Minesweeper) + Minesweeper \<Rightarrow> Minesweeper" where
  "afterCall r = (case r of Inl (e, g) \<Rightarrow> g | Inr g \<Rightarrow> g)"

fun execute :: "Command \<Rightarrow> Minesweeper \<Rightarrow> Minesweeper" where
  "execute (OpenCell x y) g = afterCall (openCell g x y)"
| "execute (ToggleCellBombMark x y) g = afterCall (toggleCellBombMark g x y)"
| "execute (RestartGame rnd) g = restartGame g rnd"

definition play :: "Minesweeper \<Rightarrow> Command list \<Rightarrow> Minesweeper" where
  "play g cs = fold execute cs g"

text \<open>The engines a caller can hold: constructed, then driven by any commands.\<close>

inductive reachable :: "Minesweeper \<Rightarrow> bool" where
  constructed: "reachable (Minesweeper n b rnd)"
| commanded: "reachable g \<Longrightarrow> reachable (execute c g)"

text \<open>
  The connected region of cells without adjacent bombs that contains the cell \<open>c\<close>, and
  the set a flood from \<open>c\<close> is to reveal: the region and the cells that border it.
\<close>

inductive_set zeroRegion :: "Minesweeper \<Rightarrow> pos \<Rightarrow> pos set" for g :: Minesweeper and c :: pos where
  start: "c \<in> zeroRegion g c"
| step: "p \<in> zeroRegion g c \<Longrightarrow> q \<in> set (adjacentPositions (fieldSize g) p) \<Longrightarrow>
         getNumberAdjacentBombs g q = 0 \<Longrightarrow> q \<in> zeroRegion g c"

definition floodSet :: "Minesweeper \<Rightarrow> pos \<Rightarrow> pos set" where
  "floodSet g c =
     zeroRegion g c \<union> {q. \<exists>p \<in> zeroRegion g c. q \<in> set (adjacentPositions (fieldSize g) p)}"

text \<open>
  The state of the grid while a game is played, with the positions \<open>ps\<close> still to be
  visited by the recursive open: no cell is DEFUSED or DETONATED, no OPENED cell holds a
  bomb, and around an OPENED cell without adjacent bombs every cell is OPENED or still to be
  visited. Between two commands nothing is left to visit.
\<close>

definition consistent :: "Minesweeper \<Rightarrow> pos list \<Rightarrow> bool" where
  "consistent g ps =
     (\<forall>p. inRange (fieldSize g) p \<longrightarrow>
        (state (gameField g p) = INITIAL \<or> state (gameField g p) = MARKED_AS_BOMB
           \<or> state (gameField g p) = OPENED)
        \<and> (state (gameField g p) = OPENED \<longrightarrow>
              \<not> isBomb (gameField g p)
              \<and> (getNumberAdjacentBombs g p = 0 \<longrightarrow>
                    (\<forall>q \<in> set (adjacentPositions (fieldSize g) p).
                        state (gameField g q) = OPENED \<or> q \<in> set ps))))"

text \<open>
  Example games. On a 2 by 2 grid with one bomb, the first draw of \<open>cornerDraws\<close> puts the
  bomb in \<open>(0, 1)\<close>.
\<close>

definition originDraws :: "nat \<Rightarrow> nat \<times> nat" where
  "originDraws k = (0, 0)"

text \<open>A 3 by 3 grid with its one bomb in the corner \<open>(0, 0)\<close>, marked.\<close>

definition markedCorner :: Minesweeper where
  "markedCorner = play (Minesweeper 3 1 originDraws) [ToggleCellBombMark 0 0]"

definition threeOpened :: Minesweeper where
  "threeOpened = play (Minesweeper 2 1 cornerDraws) [OpenCell 0 0, OpenCell 1 0, OpenCell 1 1]"

definition oneOpened :: Minesweeper where
  "oneOpened = play (Minesweeper 2 1 cornerDraws) [OpenCell 0 0]"

definition bombMarked :: Minesweeper where
  "bombMarked = play (Minesweeper 2 1 cornerDraws) [ToggleCellBombMark 0 1]"

definition lostGame :: Minesweeper where
  "lostGame = play (Minesweeper 2 1 cornerDraws) [OpenCell 0 1]"

section \<open>Cells in a terminal state\<close>

text \<open>
  Claim C7. On a cell that is OPENED, DEFUSED or DETONATED, each of \<open>openOrDetonate\<close>,
  \<open>openOrDefuse\<close> and \<open>toggleBombMark\<close> returns false and leaves the state and the bomb flag
  as they are. The operations are total functions of the cell: none has an error result,
  since the source has no path that throws.
\<close>

theorem terminal_cell_unchanged:
  assumes "state c = OPENED \<or> state c = DEFUSED \<or> state c = DETONATED"
  shows "openOrDetonate c = (False, c) \<and> openOrDefuse c = (False, c) \<and> toggleBombMark c = (False, c)"
  using assms
  by (auto simp: openOrDetonate_def openOrDefuse_def openOrDoOtherIfBomb_def toggleBombMark_def)

theorem terminal_cell_unchanged_witness:
  "(state \<lparr>isBomb = True, state = DETONATED\<rparr> = OPENED
      \<or> state \<lparr>isBomb = True, state = DETONATED\<rparr> = DEFUSED
      \<or> state \<lparr>isBomb = True, state = DETONATED\<rparr> = DETONATED)
   \<and> openOrDetonate \<lparr>isBomb = True, state = DETONATED\<rparr> = (False, \<lparr>isBomb = True, state = DETONATED\<rparr>)
   \<and> openOrDefuse \<lparr>isBomb = True, state = DETONATED\<rparr> = (False, \<lparr>isBomb = True, state = DETONATED\<rparr>)
   \<and> toggleBombMark \<lparr>isBomb = True, state = DETONATED\<rparr> = (False, \<lparr>isBomb = True, state = DETONATED\<rparr>)"
proof -
  have h: "state \<lparr>isBomb = True, state = DETONATED\<rparr> = OPENED
      \<or> state \<lparr>isBomb = True, state = DETONATED\<rparr> = DEFUSED
      \<or> state \<lparr>isBomb = True, state = DETONATED\<rparr> = DETONATED" by simp
  from terminal_cell_unchanged [OF h] h show ?thesis by simp
qed

section \<open>Positions and iterators\<close>

declare split_paired_All [simp del] split_paired_Ex [simp del]

lemma set_cellsOfRow: "set (cellsOfRow i lo hi) = {(i, j) | j. lo \<le> j \<and> j < hi}"
  by (auto simp: cellsOfRow_def)

lemma set_allPositions: "set (allPositions n) = {p. inRange n p}"
  by (auto simp: allPositions_def set_cellsOfRow inRange_def)

lemma distinct_cellsOfRow: "distinct (cellsOfRow i lo hi)"
  by (simp add: cellsOfRow_def distinct_map inj_on_def)

lemma distinct_allPositions: "distinct (allPositions n)"
  unfolding allPositions_def
  by (rule distinct_concat) (auto simp: distinct_map inj_on_def distinct_cellsOfRow set_cellsOfRow cellsOfRow_def)

lemma adjacent_iff:
  "q \<in> set (adjacentPositions n p) \<longleftrightarrow>
     inRange n q \<and> q \<noteq> p \<and> fst p \<le> fst q + 1 \<and> fst q \<le> fst p + 1
       \<and> snd p \<le> snd q + 1 \<and> snd q \<le> snd p + 1"
  by (cases p; cases q) (auto simp: adjacentPositions_def set_cellsOfRow inRange_def)

lemma adjacent_sym:
  "inRange n p \<Longrightarrow> q \<in> set (adjacentPositions n p) \<Longrightarrow> p \<in> set (adjacentPositions n q)"
  by (auto simp: adjacent_iff)

lemma forEachPos_all:
  "forEachPos (\<lambda>q a. if \<not> P q then (True, False) else (False, a)) ps a = (a \<and> (\<forall>q \<in> set ps. P q))"
  by (induction ps arbitrary: a) auto

lemma forEachPos_none:
  "forEachPos (\<lambda>q a. if P q then (True, False) else (False, a)) ps a = (a \<and> (\<forall>q \<in> set ps. \<not> P q))"
  by (induction ps arbitrary: a) auto

lemma forEachPos_count:
  "forEachPos (\<lambda>q k. (False, if P q then k + 1 else k)) ps k = k + length (filter P ps)"
  by (induction ps arbitrary: k) auto

lemma forEachPos_fold:
  "forEachPos (\<lambda>q s. (False, f q s)) ps s = fold f ps s"
  by (induction ps arbitrary: s) auto

lemma allAdjacentCellsAreBombs_iff:
  "allAdjacentCellsAreBombs g p \<longleftrightarrow>
     (\<forall>q \<in> set (adjacentPositions (fieldSize g) p). isBomb (gameField g q))"
  by (simp add: allAdjacentCellsAreBombs_def forEachAdjacentCell_def forEachPos_all)

lemma getNumberAdjacentBombs_eq:
  "getNumberAdjacentBombs g p =
     length (filter (\<lambda>q. isBomb (gameField g q)) (adjacentPositions (fieldSize g) p))"
  by (simp add: getNumberAdjacentBombs_def forEachAdjacentCell_def forEachPos_count)

lemma bombCanBeSetHere_iff:
  "bombCanBeSetHere g s \<longleftrightarrow>
     \<not> isBomb (gameField g s) \<and> \<not> allAdjacentCellsAreBombs g s \<and>
     (\<forall>q \<in> set (adjacentPositions (fieldSize g) s).
        \<not> (isBomb (gameField (setIsBomb g s True) q) \<and> allAdjacentCellsAreBombs (setIsBomb g s True) q))"
  by (simp add: bombCanBeSetHere_def forEachAdjacentCell_def forEachPos_none Let_def)

section \<open>Frame lemmas\<close>

lemma fieldSize_setCell [simp]: "fieldSize (setCell g p c) = fieldSize g"
  and bombNumber_setCell [simp]: "bombNumber (setCell g p c) = bombNumber g"
  and gameState_setCell [simp]: "gameState (setCell g p c) = gameState g"
  and notifications_setCell [simp]: "notifications (setCell g p c) = notifications g"
  and gameField_setCell [simp]: "gameField (setCell g p c) = (gameField g)(p := c)"
  by (simp_all add: setCell_def)

lemma fieldSize_notifyCell [simp]: "fieldSize (notifyCellStateChanged g p) = fieldSize g"
  and bombNumber_notifyCell [simp]: "bombNumber (notifyCellStateChanged g p) = bombNumber g"
  and gameState_notifyCell [simp]: "gameState (notifyCellStateChanged g p) = gameState g"
  and gameField_notifyCell [simp]: "gameField (notifyCellStateChanged g p) = gameField g"
  by (simp_all add: notifyCellStateChanged_def split: prod.splits)

lemma fieldSize_setGameState [simp]: "fieldSize (setGameState g st) = fieldSize g"
  and bombNumber_setGameState [simp]: "bombNumber (setGameState g st) = bombNumber g"
  and gameState_setGameState [simp]: "gameState (setGameState g st) = st"
  and gameField_setGameState [simp]: "gameField (setGameState g st) = gameField g"
  and notifications_setGameState [simp]:
    "notifications (setGameState g st) = notifications g @ [GameStateChanged st]"
  by (simp_all add: setGameState_def notifyGameStateChanged_def)

lemma fieldSize_setIsBomb [simp]: "fieldSize (setIsBomb g p b) = fieldSize g"
  and bombNumber_setIsBomb [simp]: "bombNumber (setIsBomb g p b) = bombNumber g"
  and gameState_setIsBomb [simp]: "gameState (setIsBomb g p b) = gameState g"
  and notifications_setIsBomb [simp]: "notifications (setIsBomb g p b) = notifications g"
  and gameField_setIsBomb [simp]:
    "gameField (setIsBomb g p b) = (gameField g)(p := (gameField g p)\<lparr>isBomb := b\<rparr>)"
  by (simp_all add: setIsBomb_def)

lemma fieldSize_applyAndNotify [simp]: "fieldSize (applyAndNotify operation p g) = fieldSize g"
  and bombNumber_applyAndNotify [simp]: "bombNumber (applyAndNotify operation p g) = bombNumber g"
  and gameState_applyAndNotify [simp]: "gameState (applyAndNotify operation p g) = gameState g"
  and gameField_applyAndNotify [simp]:
    "gameField (applyAndNotify operation p g) = (gameField g)(p := snd (operation (gameField g p)))"
  by (simp_all add: applyAndNotify_def split: prod.splits)

lemma fold_applyAndNotify_frame [simp]:
  "fieldSize (fold (applyAndNotify operation) ps g) = fieldSize g"
  "bombNumber (fold (applyAndNotify operation) ps g) = bombNumber g"
  "gameState (fold (applyAndNotify operation) ps g) = gameState g"
  by (induction ps arbitrary: g) simp_all

lemma gameField_fold_applyAndNotify:
  "distinct ps \<Longrightarrow>
   gameField (fold (applyAndNotify operation) ps g) p =
     (if p \<in> set ps then snd (operation (gameField g p)) else gameField g p)"
  by (induction ps arbitrary: g) auto

lemma clearCells_fold: "clearCells g = fold (applyAndNotify clear) (allPositions (fieldSize g)) g"
  by (simp add: clearCells_def forEachCell_def forEachPos_fold)

lemma clearCells_frame [simp]:
  "fieldSize (clearCells g) = fieldSize g"
  "bombNumber (clearCells g) = bombNumber g"
  "gameState (clearCells g) = gameState g"
  by (simp_all add: clearCells_fold)

lemma gameField_clearCells:
  "gameField (clearCells g) p =
     (if inRange (fieldSize g) p then \<lparr>isBomb = False, state = INITIAL\<rparr> else gameField g p)"
  by (simp add: clearCells_fold gameField_fold_applyAndNotify distinct_allPositions
        set_allPositions clear_def Let_def)

text \<open>Invariant rule for the placement loop.\<close>

lemma placeBombs_invariant:
  assumes "I s"
    and "\<And>t. I t \<Longrightarrow> numberSetBombs t < bombNumber (field t) \<Longrightarrow> admissible t \<noteq> 0 \<Longrightarrow>
           bombCanBeSetHere (field t) (drawPosition rnd (fieldSize (field t)) (iterations t)) \<Longrightarrow>
           I (t\<lparr>field := setIsBomb (field t)
                            (drawPosition rnd (fieldSize (field t)) (iterations t)) True,
                numberSetBombs := numberSetBombs t + 1,
                iterations := iterations t + 1\<rparr>)"
    and "\<And>t. I t \<Longrightarrow> numberSetBombs t < bombNumber (field t) \<Longrightarrow> admissible t \<noteq> 0 \<Longrightarrow>
           \<not> bombCanBeSetHere (field t) (drawPosition rnd (fieldSize (field t)) (iterations t)) \<Longrightarrow>
           I (t\<lparr>admissible := admissible t - 1, iterations := iterations t + 1\<rparr>)"
  shows "I (placeBombs rnd s)"
  using assms
proof (induction rnd s rule: placeBombs.induct)
  case (1 rnd s)
  note succ = "1.prems"(2) and fail = "1.prems"(3)
  show ?case
  proof (cases "numberSetBombs s < bombNumber (field s) \<and> admissible s \<noteq> 0")
    case False
    then show ?thesis using "1.prems"(1) by (subst placeBombs.simps) auto
  next
    case True
    show ?thesis
    proof (cases "bombCanBeSetHere (field s) (drawPosition rnd (fieldSize (field s)) (iterations s))")
      case can: True
      have "I (s\<lparr>field := setIsBomb (field s)
                            (drawPosition rnd (fieldSize (field s)) (iterations s)) True,
                numberSetBombs := numberSetBombs s + 1,
                iterations := iterations s + 1\<rparr>)"
        using succ "1.prems"(1) True can by blast
      from "1.IH"(1)[OF True can this succ fail] show ?thesis
        using True can by (subst placeBombs.simps) simp
    next
      case cannot: False
      have "I (s\<lparr>admissible := admissible s - 1, iterations := iterations s + 1\<rparr>)"
        using fail "1.prems"(1) True cannot by blast
      from "1.IH"(2)[OF True cannot this succ fail] show ?thesis
        using True cannot by (subst placeBombs.simps) simp
    qed
  qed
qed

lemma placeBombs_exit:
  "\<not> (numberSetBombs (placeBombs rnd s) < bombNumber (field (placeBombs rnd s))
      \<and> admissible (placeBombs rnd s) \<noteq> 0)"
proof (induction rnd s rule: placeBombs.induct)
  case (1 rnd s)
  show ?case
    using 1 by (subst (1 2 3) placeBombs.simps) (auto simp del: One_nat_def)
qed

section \<open>Counting cells\<close>

lemma filter_agree:
  "\<forall>q \<in> set ps. Q q = P q \<Longrightarrow> filter Q ps = filter P ps"
  by (intro filter_cong) auto

lemma length_filter_change_one:
  "distinct ps \<Longrightarrow> s \<in> set ps \<Longrightarrow> \<forall>q. q \<noteq> s \<longrightarrow> Q q = P q \<Longrightarrow>
   length (filter Q ps) + (of_bool (P s) :: nat) = length (filter P ps) + of_bool (Q s)"
proof (induction ps)
  case Nil
  then show ?case by simp
next
  case (Cons a ps)
  show ?case
  proof (cases "a = s")
    case True
    then have "\<forall>q \<in> set ps. Q q = P q" using Cons.prems by auto
    then have "filter Q ps = filter P ps" by (rule filter_agree)
    then show ?thesis using True by simp
  next
    case False
    then have "Q a = P a" using Cons.prems by simp
    moreover have "length (filter Q ps) + (of_bool (P s) :: nat) = length (filter P ps) + of_bool (Q s)"
      using Cons False by simp
    ultimately show ?thesis by simp
  qed
qed

section \<open>The placement loop\<close>

lemma inRange_drawPosition: "0 < n \<Longrightarrow> inRange n (drawPosition rnd n k)"
  by (simp add: inRange_def drawPosition_def)

lemma placement_frame [simp]:
  "fieldSize (field (placement g rnd)) = fieldSize g"
  "bombNumber (field (placement g rnd)) = bombNumber g"
  "gameState (field (placement g rnd)) = gameState g"
proof -
  let ?I = "\<lambda>s. fieldSize (field s) = fieldSize g \<and> bombNumber (field s) = bombNumber g
                 \<and> gameState (field s) = gameState g"
  have "?I (placement g rnd)"
    unfolding placement_def by (rule placeBombs_invariant) simp_all
  then show "fieldSize (field (placement g rnd)) = fieldSize g"
    "bombNumber (field (placement g rnd)) = bombNumber g"
    "gameState (field (placement g rnd)) = gameState g" by simp_all
qed

lemma placement_counters:
  "iterations (placement g rnd) + admissible (placement g rnd)
     = numberSetBombs (placement g rnd) + fieldSize g * fieldSize g
   \<and> numberSetBombs (placement g rnd) \<le> bombNumber g
   \<and> admissible (placement g rnd) \<le> fieldSize g * fieldSize g"
proof -
  let ?I = "\<lambda>s. bombNumber (field s) = bombNumber g
                 \<and> iterations s + admissible s = numberSetBombs s + fieldSize g * fieldSize g
                 \<and> numberSetBombs s \<le> bombNumber g
                 \<and> admissible s \<le> fieldSize g * fieldSize g"
  have "?I (placement g rnd)"
    unfolding placement_def by (rule placeBombs_invariant) auto
  then show ?thesis by simp
qed

text \<open>
  Claim C8. The placement loop terminates for every \<open>fieldSize\<close> and \<open>bombNumber\<close>:
  \<open>placeBombs\<close> is a total function, its termination proved where it is defined, with
  the measure \<open>(bombNumber - numberSetBombs) + admissible\<close>, and the state it returns no
  longer satisfies the condition of the loop. Every iteration either counts one more bomb
  set, of which there are never more than \<open>bombNumber\<close>, or takes one from the budget of
  \<open>fieldSize * fieldSize\<close> failed attempts, so that the loop makes at most
  \<open>bombNumber + fieldSize * fieldSize\<close> iterations.
\<close>

theorem placement_terminates_within_bound:
  "(bombNumber g \<le> numberSetBombs (placement g rnd) \<or> admissible (placement g rnd) = 0)
   \<and> iterations (placement g rnd)
       = numberSetBombs (placement g rnd)
         + (fieldSize g * fieldSize g - admissible (placement g rnd))
   \<and> numberSetBombs (placement g rnd) \<le> bombNumber g
   \<and> iterations (placement g rnd) \<le> bombNumber g + fieldSize g * fieldSize g"
proof -
  have "bombNumber g \<le> numberSetBombs (placement g rnd) \<or> admissible (placement g rnd) = 0"
    using placeBombs_exit [of rnd "\<lparr>field = clearCells g, numberSetBombs = 0,
                     admissible = fieldSize g * fieldSize g, iterations = 0\<rparr>"]
    by (auto simp: placement_def [symmetric])
  then show ?thesis using placement_counters [of g rnd] by linarith
qed

lemma numberOfBombs_setIsBomb:
  assumes "inRange (fieldSize g) s" "\<not> isBomb (gameField g s)"
  shows "numberOfBombs (setIsBomb g s True) = Suc (numberOfBombs g)"
  using length_filter_change_one [of "allPositions (fieldSize g)" s
          "\<lambda>p. isBomb (gameField (setIsBomb g s True) p)" "\<lambda>p. isBomb (gameField g p)"] assms
  by (simp add: numberOfBombs_def distinct_allPositions set_allPositions)

lemma numberOfBombs_clearCells: "numberOfBombs (clearCells g) = 0"
  by (simp add: numberOfBombs_def gameField_clearCells set_allPositions filter_empty_conv)

lemma placement_numberOfBombs:
  "numberOfBombs (field (placement g rnd)) = numberSetBombs (placement g rnd)"
proof -
  let ?I = "\<lambda>s. fieldSize (field s) = fieldSize g
                 \<and> admissible s \<le> fieldSize g * fieldSize g
                 \<and> numberOfBombs (field s) = numberSetBombs s"
  have "?I (placement g rnd)"
    unfolding placement_def
  proof (rule placeBombs_invariant)
    show "?I \<lparr>field = clearCells g, numberSetBombs = 0,
              admissible = fieldSize g * fieldSize g, iterations = 0\<rparr>"
      by (simp add: numberOfBombs_clearCells)
  next
    fix t
    assume I: "?I t" and adm: "admissible t \<noteq> 0"
      and can: "bombCanBeSetHere (field t) (drawPosition rnd (fieldSize (field t)) (iterations t))"
    from I adm have "0 < fieldSize (field t)" by (cases "fieldSize g") auto
    then have "inRange (fieldSize (field t)) (drawPosition rnd (fieldSize (field t)) (iterations t))"
      by (rule inRange_drawPosition)
    moreover from can
    have "\<not> isBomb (gameField (field t) (drawPosition rnd (fieldSize (field t)) (iterations t)))"
      by (simp add: bombCanBeSetHere_iff)
    ultimately show "?I (t\<lparr>field := setIsBomb (field t)
                            (drawPosition rnd (fieldSize (field t)) (iterations t)) True,
                numberSetBombs := numberSetBombs t + 1,
                iterations := iterations t + 1\<rparr>)"
      using I by (simp add: numberOfBombs_setIsBomb)
  next
    fix t
    assume "?I t"
    then show "?I (t\<lparr>admissible := admissible t - 1, iterations := iterations t + 1\<rparr>)"
      by auto
  qed
  then show ?thesis by simp
qed

lemma state_placement:
  "inRange (fieldSize g) p \<Longrightarrow> state (gameField (field (placement g rnd)) p) = INITIAL"
proof -
  let ?I = "\<lambda>s. \<forall>p. inRange (fieldSize g) p \<longrightarrow> state (gameField (field s) p) = INITIAL"
  have "?I (placement g rnd)"
    unfolding placement_def
    by (rule placeBombs_invariant) (simp_all add: gameField_clearCells)
  then show "inRange (fieldSize g) p \<Longrightarrow> state (gameField (field (placement g rnd)) p) = INITIAL"
    by blast
qed

lemma numberOfBombs_setGameState [simp]:
  "numberOfBombs (setGameState g st) = numberOfBombs g"
  by (simp add: numberOfBombs_def)

text \<open>
  Claim C3. When the placement loop ends with the budget of failed attempts not used up,
  exactly \<open>bombNumber\<close> cells of the grid hold a bomb, in the constructor and after a
  restart alike.
\<close>

theorem placement_places_all_bombs:
  assumes "admissible (placement g rnd) \<noteq> 0"
  shows "numberOfBombs (setBombsOnGameField g rnd) = bombNumber g"
proof -
  have "\<not> numberSetBombs (placement g rnd) < bombNumber g"
    using placeBombs_exit [of rnd "\<lparr>field = clearCells g, numberSetBombs = 0,
                     admissible = fieldSize g * fieldSize g, iterations = 0\<rparr>"] assms
    by (simp add: placement_def [symmetric])
  moreover have "numberSetBombs (placement g rnd) \<le> bombNumber g"
    using placement_counters [of g rnd] by simp
  ultimately show ?thesis
    by (simp add: setBombsOnGameField_def placement_numberOfBombs)
qed

theorem placement_places_all_bombs_witness:
  "admissible (placement (initiated 3 3) cornerDraws) \<noteq> 0
   \<and> numberOfBombs (setBombsOnGameField (initiated 3 3) cornerDraws) = bombNumber (initiated 3 3)"
proof -
  have h: "admissible (placement (initiated 3 3) cornerDraws) \<noteq> 0"
    by code_simp
  from placement_places_all_bombs [OF h] h show ?thesis by simp
qed

section \<open>Termination of the recursive open\<close>

lemma unsettled_alt:
  "unsettled g = length (filter (\<lambda>p. unsettledCell (gameField g p)) (allPositions (fieldSize g)))"
  by (simp add: unsettled_def unsettledCell_def)

lemma unsettled_update:
  assumes "fieldSize g' = fieldSize g" "gameField g' = (gameField g)(p := c)" "inRange (fieldSize g) p"
  shows "unsettled g' + of_bool (unsettledCell (gameField g p))
           = unsettled g + of_bool (unsettledCell c)"
  using length_filter_change_one [of "allPositions (fieldSize g)" p
        "\<lambda>q. unsettledCell (gameField g' q)" "\<lambda>q. unsettledCell (gameField g q)"] assms
  by (simp add: unsettled_alt distinct_allPositions set_allPositions)

lemma openOrDetonate_cases:
  "openOrDetonate c =
     (if unsettledCell c then (True, c\<lparr>state := (if isBomb c then DETONATED else OPENED)\<rparr>)
      else (False, c))"
  by (simp add: openOrDetonate_def openOrDoOtherIfBomb_def unsettledCell_def)

lemma openOrDefuse_cases:
  "openOrDefuse c =
     (if unsettledCell c then (True, c\<lparr>state := (if isBomb c then DEFUSED else OPENED)\<rparr>)
      else (False, c))"
  by (simp add: openOrDefuse_def openOrDoOtherIfBomb_def unsettledCell_def)

lemma unsettled_open:
  assumes "inRange (fieldSize g) p" "unsettledCell (gameField g p)"
  shows "unsettled (applyAndNotify openOrDetonate p g) < unsettled g"
  using unsettled_update [of "applyAndNotify openOrDetonate p g" g p
          "snd (openOrDetonate (gameField g p))"] assms
  by (auto simp: openOrDetonate_cases unsettledCell_def split: if_splits)

lemma applyAndNotify_unchanged:
  "\<not> fst (operation (gameField g p)) \<Longrightarrow> snd (operation (gameField g p)) = gameField g p \<Longrightarrow>
   applyAndNotify operation p g = g"
  by (cases "operation (gameField g p)") (simp add: applyAndNotify_def setCell_def)

lemma applyAndNotify_openOrDetonate_settled:
  "\<not> unsettledCell (gameField g p) \<Longrightarrow> applyAndNotify openOrDetonate p g = g"
  by (rule applyAndNotify_unchanged) (simp_all add: openOrDetonate_cases)

lemma unsettled_setGameState [simp]: "unsettled (setGameState g st) = unsettled g"
  by (simp add: unsettled_def)

lemma setLoss_fold:
  "setLoss g = setGameState (fold (applyAndNotify openOrDetonate) (allPositions (fieldSize g)) g) LOSS"
  by (simp add: setLoss_def forEachCell_def forEachPos_fold)

lemma setLoss_frame [simp]:
  "fieldSize (setLoss g) = fieldSize g"
  "bombNumber (setLoss g) = bombNumber g"
  "gameState (setLoss g) = LOSS"
  by (simp_all add: setLoss_fold)

lemma gameField_setLoss:
  "gameField (setLoss g) p =
     (if inRange (fieldSize g) p then snd (openOrDetonate (gameField g p)) else gameField g p)"
  by (simp add: setLoss_fold gameField_fold_applyAndNotify distinct_allPositions set_allPositions)

lemma unsettled_setLoss [simp]: "unsettled (setLoss g) = 0"
  by (auto simp: unsettled_alt gameField_setLoss set_allPositions filter_empty_conv
        openOrDetonate_cases unsettledCell_def)

termination openCells
proof (relation "measures [\<lambda>(g, ps). unsettled g, \<lambda>(g, ps). length ps]", goal_cases)
  case 1
  then show ?case by simp
next
  case (2 g p ps stateChanged g1)
  then have "unsettled g1 < unsettled g"
    by (auto simp: unsettled_open openOrDetonate_cases split: if_splits)
  then show ?case by simp
next
  case (3 g p ps stateChanged g1)
  then have "unsettled g1 < unsettled g"
    by (auto simp: unsettled_open openOrDetonate_cases split: if_splits)
  then show ?case by simp
next
  case (4 g p ps stateChanged g1)
  then have "unsettled g1 < unsettled g"
    by (auto simp: unsettled_open openOrDetonate_cases split: if_splits)
  then show ?case by simp
next
  case (5 g p ps stateChanged g1)
  then have "g1 = g"
    by (auto simp: applyAndNotify_openOrDetonate_settled openOrDetonate_cases split: if_splits)
  then show ?case by simp
qed

section \<open>Placement keeps bombs from being surrounded\<close>

lemma Minesweeper_initiated: "Minesweeper n b rnd = setBombsOnGameField (initiated n b) rnd"
  by (simp add: Minesweeper_def initiated_def)

lemma allAdjacent_setGameState [simp]:
  "allAdjacentCellsAreBombs (setGameState g st) p = allAdjacentCellsAreBombs g p"
  by (simp add: allAdjacentCellsAreBombs_iff)

lemma bomb_keeps_free_neighbour:
  assumes inv: "\<forall>p. inRange (fieldSize g) p \<and> isBomb (gameField g p) \<longrightarrow> \<not> allAdjacentCellsAreBombs g p"
    and can: "bombCanBeSetHere g s"
    and p: "inRange (fieldSize g) p" "isBomb (gameField (setIsBomb g s True) p)"
  shows "\<not> allAdjacentCellsAreBombs (setIsBomb g s True) p"
proof (cases "p = s")
  case True
  from can obtain q where q: "q \<in> set (adjacentPositions (fieldSize g) s)" "\<not> isBomb (gameField g q)"
    by (auto simp: bombCanBeSetHere_iff allAdjacentCellsAreBombs_iff)
  then have "q \<noteq> s" by (auto simp: adjacent_iff)
  with q True show ?thesis by (auto simp: allAdjacentCellsAreBombs_iff)
next
  case False
  with p have "isBomb (gameField g p)" by simp
  with inv p(1) have "\<not> allAdjacentCellsAreBombs g p" by blast
  then obtain q where q: "q \<in> set (adjacentPositions (fieldSize g) p)" "\<not> isBomb (gameField g q)"
    unfolding allAdjacentCellsAreBombs_iff by blast
  show ?thesis
  proof (cases "q = s")
    case True
    with q(1) p(1) have "p \<in> set (adjacentPositions (fieldSize g) s)"
      by (auto dest: adjacent_sym)
    with can p(2) show ?thesis by (auto simp: bombCanBeSetHere_iff)
  next
    case False
    with q show ?thesis by (auto simp: allAdjacentCellsAreBombs_iff)
  qed
qed

lemma placement_no_bomb_surrounded:
  "\<forall>p. inRange (fieldSize g) p \<and> isBomb (gameField (field (placement g rnd)) p)
        \<longrightarrow> \<not> allAdjacentCellsAreBombs (field (placement g rnd)) p"
proof -
  let ?I = "\<lambda>s. fieldSize (field s) = fieldSize g \<and>
                 (\<forall>p. inRange (fieldSize g) p \<and> isBomb (gameField (field s) p)
                        \<longrightarrow> \<not> allAdjacentCellsAreBombs (field s) p)"
  have "?I (placement g rnd)"
    unfolding placement_def
  proof (rule placeBombs_invariant)
    show "?I \<lparr>field = clearCells g, numberSetBombs = 0,
              admissible = fieldSize g * fieldSize g, iterations = 0\<rparr>"
      by (simp add: gameField_clearCells)
  next
    fix t
    assume I: "?I t"
      and can: "bombCanBeSetHere (field t) (drawPosition rnd (fieldSize (field t)) (iterations t))"
    show "?I (t\<lparr>field := setIsBomb (field t)
                            (drawPosition rnd (fieldSize (field t)) (iterations t)) True,
                numberSetBombs := numberSetBombs t + 1,
                iterations := iterations t + 1\<rparr>)"
      using I bomb_keeps_free_neighbour [OF _ can] by simp
  next
    fix t
    assume "?I t"
    then show "?I (t\<lparr>admissible := admissible t - 1, iterations := iterations t + 1\<rparr>)"
      by simp
  qed
  then show ?thesis by simp
qed

text \<open>
  Claim C1, as amended. When the placement succeeds (all \<open>bombNumber\<close> bombs set, the budget
  not used up), no cell of the grid that holds a bomb has a bomb in every one of its
  adjacent cells. The check in the loop looks only at adjacent cells that hold a bomb
  (\<open>adjacentCell.isBomb && ...\<close>), and at the selected cell itself.
\<close>

theorem successful_placement_no_bomb_surrounded:
  assumes "numberSetBombs (placement g rnd) = bombNumber g"
    and "admissible (placement g rnd) \<noteq> 0"
  shows "\<forall>p. inRange (fieldSize g) p \<and> isBomb (gameField (setBombsOnGameField g rnd) p)
              \<longrightarrow> \<not> allAdjacentCellsAreBombs (setBombsOnGameField g rnd) p"
  using placement_no_bomb_surrounded [of g rnd]
  by (simp add: setBombsOnGameField_def)

theorem successful_placement_no_bomb_surrounded_witness:
  "numberSetBombs (placement (initiated 3 3) cornerDraws) = bombNumber (initiated 3 3)
   \<and> admissible (placement (initiated 3 3) cornerDraws) \<noteq> 0
   \<and> noBombSurrounded (Minesweeper 3 3 cornerDraws)"
proof -
  have h1: "numberSetBombs (placement (initiated 3 3) cornerDraws) = bombNumber (initiated 3 3)"
    by code_simp
  have h2: "admissible (placement (initiated 3 3) cornerDraws) \<noteq> 0"
    by code_simp
  have "fieldSize (initiated 3 3) = 3" by (simp add: initiated_def)
  with successful_placement_no_bomb_surrounded [OF h1 h2]
  have "noBombSurrounded (Minesweeper 3 3 cornerDraws)"
    by (simp add: noBombSurrounded_def list_all_iff set_allPositions Minesweeper_initiated
          setBombsOnGameField_def)
  with h1 h2 show ?thesis by simp
qed

text \<open>
  Claim C1 as stated fails for cells without a bomb: on a 3 by 3 grid with three bombs,
  the draws \<open>(0, 1)\<close>, \<open>(1, 0)\<close>, \<open>(1, 1)\<close> are all accepted, the placement succeeds, and the
  corner \<open>(0, 0)\<close> has a bomb in each of its three adjacent cells.
\<close>

theorem surrounded_cell_counterexample:
  "numberSetBombs (placement (initiated 3 3) cornerDraws) = bombNumber (initiated 3 3)
   \<and> admissible (placement (initiated 3 3) cornerDraws) \<noteq> 0
   \<and> inRange (fieldSize (Minesweeper 3 3 cornerDraws)) (0, 0)
   \<and> allAdjacentCellsAreBombs (Minesweeper 3 3 cornerDraws) (0, 0)"
  by code_simp

section \<open>Steps of the recursive open\<close>

lemma startGameIfNeeded_cases:
  "startGameIfNeeded g =
     (if gameState g = READY then (True, setGameState g RUNNING)
      else if gameState g = RUNNING then (True, g) else (False, g))"
  by (simp add: startGameIfNeeded_def Let_def)

lemma lookupCell_None:
  "lookupCell g x y = None \<longleftrightarrow> x < 0 \<or> int (fieldSize g) \<le> x \<or> y < 0 \<or> int (fieldSize g) \<le> y"
  by (auto simp: lookupCell_def)

lemma lookupCell_Some:
  "lookupCell g x y = Some p \<Longrightarrow> inRange (fieldSize g) p \<and> x = int (fst p) \<and> y = int (snd p)"
  by (auto simp: lookupCell_def inRange_def split: if_splits)

lemma lookupCell_setGameState [simp]: "lookupCell (setGameState g st) x y = lookupCell g x y"
  by (simp add: lookupCell_def)

lemma inRange_adjacent: "q \<in> set (adjacentPositions n p) \<Longrightarrow> inRange n q"
  by (simp add: adjacent_iff)

declare openCells.simps(2) [simp del]

lemma isBomb_openOrDetonate [simp]: "isBomb (snd (openOrDetonate c)) = isBomb c"
  by (simp add: openOrDetonate_cases)

lemma isBomb_openOrDefuse [simp]: "isBomb (snd (openOrDefuse c)) = isBomb c"
  by (simp add: openOrDefuse_cases)

lemma getNumberAdjacentBombs_cong:
  "fieldSize g' = fieldSize g \<Longrightarrow> (\<And>q. isBomb (gameField g' q) = isBomb (gameField g q)) \<Longrightarrow>
   getNumberAdjacentBombs g' p = getNumberAdjacentBombs g p"
  by (simp add: getNumberAdjacentBombs_eq)

lemma getNumberAdjacentBombs_open [simp]:
  "getNumberAdjacentBombs (applyAndNotify openOrDetonate q g) p = getNumberAdjacentBombs g p"
  by (rule getNumberAdjacentBombs_cong) simp_all

lemma state_opened_cell:
  "unsettledCell c \<Longrightarrow>
   state (snd (openOrDetonate c)) = (if isBomb c then DETONATED else OPENED)"
  by (simp add: openOrDetonate_cases)

lemma openCells_out_of_range:
  "\<not> inRange (fieldSize g) p \<Longrightarrow> openCells g (p # ps) = Inl TypeError"
  by (simp add: openCells.simps(2))

lemma openCells_settled:
  "inRange (fieldSize g) p \<Longrightarrow> \<not> unsettledCell (gameField g p) \<Longrightarrow>
   openCells g (p # ps) = openCells g ps"
  by (simp add: openCells.simps(2) applyAndNotify_openOrDetonate_settled openOrDetonate_cases)

lemma openCells_detonate:
  "inRange (fieldSize g) p \<Longrightarrow> unsettledCell (gameField g p) \<Longrightarrow> isBomb (gameField g p) \<Longrightarrow>
   openCells g (p # ps) = openCells (setLoss (applyAndNotify openOrDetonate p g)) ps"
  by (simp add: openCells.simps(2) state_opened_cell Let_def openOrDetonate_cases)

lemma openCells_flood:
  "inRange (fieldSize g) p \<Longrightarrow> unsettledCell (gameField g p) \<Longrightarrow> \<not> isBomb (gameField g p) \<Longrightarrow>
   getNumberAdjacentBombs g p = 0 \<Longrightarrow>
   openCells g (p # ps)
     = openCells (applyAndNotify openOrDetonate p g) (adjacentPositions (fieldSize g) p @ ps)"
  by (simp add: openCells.simps(2) state_opened_cell Let_def openOrDetonate_cases)

lemma openCells_number:
  "inRange (fieldSize g) p \<Longrightarrow> unsettledCell (gameField g p) \<Longrightarrow> \<not> isBomb (gameField g p) \<Longrightarrow>
   getNumberAdjacentBombs g p \<noteq> 0 \<Longrightarrow>
   openCells g (p # ps) = openCells (applyAndNotify openOrDetonate p g) ps"
  by (simp add: openCells.simps(2) state_opened_cell Let_def openOrDetonate_cases)

lemma openCells_cases [case_names Nil OutOfRange Settled Detonate Flood Number]:
  assumes "\<And>g. P g []"
    and "\<And>g p ps. \<not> inRange (fieldSize g) p \<Longrightarrow> P g (p # ps)"
    and "\<And>g p ps. inRange (fieldSize g) p \<Longrightarrow> \<not> unsettledCell (gameField g p) \<Longrightarrow>
           P g ps \<Longrightarrow> P g (p # ps)"
    and "\<And>g p ps. inRange (fieldSize g) p \<Longrightarrow> unsettledCell (gameField g p) \<Longrightarrow>
           isBomb (gameField g p) \<Longrightarrow>
           P (setLoss (applyAndNotify openOrDetonate p g)) ps \<Longrightarrow> P g (p # ps)"
    and "\<And>g p ps. inRange (fieldSize g) p \<Longrightarrow> unsettledCell (gameField g p) \<Longrightarrow>
           \<not> isBomb (gameField g p) \<Longrightarrow> getNumberAdjacentBombs g p = 0 \<Longrightarrow>
           P (applyAndNotify openOrDetonate p g) (adjacentPositions (fieldSize g) p @ ps) \<Longrightarrow>
           P g (p # ps)"
    and "\<And>g p ps. inRange (fieldSize g) p \<Longrightarrow> unsettledCell (gameField g p) \<Longrightarrow>
           \<not> isBomb (gameField g p) \<Longrightarrow> getNumberAdjacentBombs g p \<noteq> 0 \<Longrightarrow>
           P (applyAndNotify openOrDetonate p g) ps \<Longrightarrow> P g (p # ps)"
  shows "P g ps"
proof (induction g ps rule: openCells.induct)
  case (1 g)
  show ?case by (rule assms(1))
next
  case (2 g p ps)
  let ?g1 = "applyAndNotify openOrDetonate p g"
  show ?case
  proof (cases "inRange (fieldSize g) p")
    case False
    then show ?thesis by (rule assms(2))
  next
    case inr: True
    show ?thesis
    proof (cases "unsettledCell (gameField g p)")
      case False
      then have "\<not> fst (openOrDetonate (gameField g p))" "?g1 = g"
        by (simp_all add: openOrDetonate_cases applyAndNotify_openOrDetonate_settled)
      with "2.IH"(4) [of "fst (openOrDetonate (gameField g p))" ?g1] inr
      have "P g ps" by simp
      with inr False show ?thesis by (rule assms(3))
    next
      case uns: True
      then have ch: "fst (openOrDetonate (gameField g p))"
        by (simp add: openOrDetonate_cases)
      show ?thesis
      proof (cases "isBomb (gameField g p)")
        case True
        with uns have "state (gameField ?g1 p) = DETONATED" by (simp add: state_opened_cell)
        with "2.IH"(1) [of "fst (openOrDetonate (gameField g p))" ?g1] inr ch
        have "P (setLoss ?g1) ps" by simp
        with inr uns True show ?thesis by (rule assms(4))
      next
        case nb: False
        with uns have st: "state (gameField ?g1 p) \<noteq> DETONATED" by (simp add: state_opened_cell)
        show ?thesis
        proof (cases "getNumberAdjacentBombs g p = 0")
          case True
          with "2.IH"(2) [of "fst (openOrDetonate (gameField g p))" ?g1] inr ch st
          have "P ?g1 (adjacentPositions (fieldSize g) p @ ps)" by simp
          with inr uns nb True show ?thesis by (rule assms(5))
        next
          case False
          with "2.IH"(3) [of "fst (openOrDetonate (gameField g p))" ?g1] inr ch st
          have "P ?g1 ps" by simp
          with inr uns nb False show ?thesis by (rule assms(6))
        qed
      qed
    qed
  qed
qed

lemma openCells_no_error:
  "\<forall>p \<in> set ps. inRange (fieldSize g) p \<Longrightarrow> \<exists>g'. openCells g ps = Inr g'"
proof (induction g ps rule: openCells_cases)
  case (Nil g)
  then show ?case by simp
next
  case (OutOfRange g p ps)
  then show ?case by simp
next
  case (Settled g p ps)
  then show ?case by (simp add: openCells_settled)
next
  case (Detonate g p ps)
  then show ?case by (simp add: openCells_detonate)
next
  case (Flood g p ps)
  have "\<forall>q \<in> set (adjacentPositions (fieldSize g) p @ ps).
          inRange (fieldSize (applyAndNotify openOrDetonate p g)) q"
    using Flood.prems by (auto simp: inRange_adjacent)
  with Flood show ?case by (simp add: openCells_flood)
next
  case (Number g p ps)
  then show ?case by (simp add: openCells_number)
qed

lemma openCell_gated:
  "gameState g \<noteq> READY \<Longrightarrow> gameState g \<noteq> RUNNING \<Longrightarrow> openCell g x y = Inr g"
  by (simp add: openCell_def startGameIfNeeded_cases)

lemma toggleCellBombMark_gated:
  "gameState g \<noteq> READY \<Longrightarrow> gameState g \<noteq> RUNNING \<Longrightarrow> toggleCellBombMark g x y = Inr g"
  by (simp add: toggleCellBombMark_def startGameIfNeeded_cases)

lemma openCell_error_iff:
  "openCell g x y = Inl (e, g') \<longleftrightarrow>
     (gameState g = READY \<or> gameState g = RUNNING) \<and> lookupCell g x y = None
       \<and> g' = snd (startGameIfNeeded g)"
proof (cases "gameState g = READY \<or> gameState g = RUNNING")
  case False
  then show ?thesis by (simp add: openCell_gated)
next
  case True
  show ?thesis
  proof (cases "lookupCell g x y")
    case None
    then show ?thesis using True by (cases e) (auto simp: openCell_def startGameIfNeeded_cases)
  next
    case (Some p)
    have "inRange (fieldSize (snd (startGameIfNeeded g))) p"
      using lookupCell_Some [OF Some] by (simp add: startGameIfNeeded_cases)
    then obtain g2 where "openCells (snd (startGameIfNeeded g)) [p] = Inr g2"
      using openCells_no_error [of "[p]" "snd (startGameIfNeeded g)"] by auto
    then show ?thesis using True Some by (auto simp: openCell_def startGameIfNeeded_cases)
  qed
qed

lemma toggleCellBombMark_error_iff:
  "toggleCellBombMark g x y = Inl (e, g') \<longleftrightarrow>
     (gameState g = READY \<or> gameState g = RUNNING) \<and> lookupCell g x y = None
       \<and> g' = snd (startGameIfNeeded g)"
  by (cases e)
     (auto simp: toggleCellBombMark_def startGameIfNeeded_cases split: option.splits prod.splits)

section \<open>The recursion and its call stack\<close>

lemma andThen_simps [simp]: "andThen (Inl e) ps = Inl e" "andThen (Inr g) ps = openCells g ps"
  by (simp_all add: andThen_def)

lemma unsettled_applyAndNotify_open_le:
  "unsettled (applyAndNotify openOrDetonate p g) \<le> unsettled g"
proof (cases "inRange (fieldSize g) p \<and> unsettledCell (gameField g p)")
  case True
  then show ?thesis using unsettled_open [of g p] by simp
next
  case False
  then consider "\<not> unsettledCell (gameField g p)" | "\<not> inRange (fieldSize g) p" by blast
  then show ?thesis
  proof cases
    case 1
    then show ?thesis by (simp add: applyAndNotify_openOrDetonate_settled)
  next
    case 2
    then have "filter (\<lambda>q. unsettledCell (gameField (applyAndNotify openOrDetonate p g) q))
                 (allPositions (fieldSize g))
             = filter (\<lambda>q. unsettledCell (gameField g q)) (allPositions (fieldSize g))"
      by (intro filter_cong) (auto simp: set_allPositions)
    then show ?thesis by (simp add: unsettled_alt)
  qed
qed

lemma openAdjacentRec_agrees:
  assumes cell: "\<And>g p. unsettled g < depth \<Longrightarrow> agrees g [p] (openCellRec depth g p)"
  shows "unsettled g < depth \<Longrightarrow> agrees g qs (openAdjacentRec depth g qs)"
proof (induction qs arbitrary: g)
  case Nil
  then show ?case by (simp add: agrees_def)
next
  case (Cons q qs)
  from cell [OF Cons.prems, of q] obtain r where r: "openCellRec depth g q = Some r"
    "\<And>ps. openCells g (q # ps) = andThen r ps"
    "\<And>g'. r = Inr g' \<Longrightarrow> unsettled g' \<le> unsettled g"
    by (auto simp: agrees_def)
  show ?case
  proof (cases r)
    case (Inl e)
    then show ?thesis using r by (simp add: agrees_def)
  next
    case (Inr g')
    then have "unsettled g' < depth" using r(3) Cons.prems by fastforce
    from Cons.IH [OF this] obtain r' where r': "openAdjacentRec depth g' qs = Some r'"
      "\<And>ps. openCells g' (qs @ ps) = andThen r' ps"
      "\<And>g''. r' = Inr g'' \<Longrightarrow> unsettled g'' \<le> unsettled g'"
      by (auto simp: agrees_def)
    have "unsettled g'' \<le> unsettled g" if "r' = Inr g''" for g''
      using r'(3) [OF that] r(3) [OF Inr] by simp
    then show ?thesis using r r' Inr by (simp add: agrees_def)
  qed
qed

lemma openCellRec_agrees:
  "unsettled g < depth \<Longrightarrow> agrees g [p] (openCellRec depth g p)"
proof (induction depth arbitrary: g p)
  case 0
  then show ?case by simp
next
  case (Suc depth)
  let ?g1 = "applyAndNotify openOrDetonate p g"
  show ?case
  proof (cases "inRange (fieldSize g) p")
    case False
    then show ?thesis by (simp add: agrees_def openCells_out_of_range)
  next
    case inr: True
    show ?thesis
    proof (cases "unsettledCell (gameField g p)")
      case False
      then show ?thesis
        using inr
        by (simp add: agrees_def openCells_settled openOrDetonate_cases
              applyAndNotify_openOrDetonate_settled)
    next
      case uns: True
      have less: "unsettled ?g1 < unsettled g" using inr uns by (rule unsettled_open)
      show ?thesis
      proof (cases "isBomb (gameField g p)")
        case True
        then show ?thesis
          using inr uns
          by (simp add: agrees_def openCells_detonate openOrDetonate_cases)
      next
        case nb: False
        show ?thesis
        proof (cases "getNumberAdjacentBombs g p = 0")
          case False
          then show ?thesis
            using inr uns nb less
            by (simp add: agrees_def openCells_number openOrDetonate_cases)
        next
          case True
          from less Suc.prems have "unsettled ?g1 < depth" by simp
          from openAdjacentRec_agrees [OF Suc.IH this, of "adjacentPositions (fieldSize g) p"]
          obtain r where r: "openAdjacentRec depth ?g1 (adjacentPositions (fieldSize g) p) = Some r"
            "\<And>ps. openCells ?g1 (adjacentPositions (fieldSize g) p @ ps) = andThen r ps"
            "\<And>g'. r = Inr g' \<Longrightarrow> unsettled g' \<le> unsettled ?g1"
            by (auto simp: agrees_def)
          have "unsettled g' \<le> unsettled g" if "r = Inr g'" for g'
            using r(3) [OF that] less by simp
          then show ?thesis
            using inr uns nb True r(1,2)
            by (simp add: agrees_def openCells_flood openOrDetonate_cases)
        qed
      qed
    qed
  qed
qed

text \<open>
  With a bound above the number of cells that can still change, the recursion of the source
  returns, and it returns what \<open>openCells\<close> computes.
\<close>

lemma openCells_is_the_recursion:
  "unsettled g < depth \<Longrightarrow> openCellRec depth g p = Some (openCells g [p])"
proof -
  assume "unsettled g < depth"
  from openCellRec_agrees [OF this, of p]
  obtain r where "openCellRec depth g p = Some r" "openCells g ([p] @ []) = andThen r []"
    unfolding agrees_def by blast
  then show ?thesis by (cases r) simp_all
qed

section \<open>The gate of the commands\<close>

lemma setWinIfNeeded_cases:
  "setWinIfNeeded g =
     (if gameState g = RUNNING \<and> (\<forall>p. inRange (fieldSize g) p \<longrightarrow> \<not> preventsWin (gameField g p))
      then setGameState (fold (applyAndNotify openOrDefuse) (allPositions (fieldSize g)) g) WIN
      else g)"
proof -
  have w: "forEachCell (fieldSize g)
          (\<lambda>p win. if state (gameField g p) = INITIAL
                        \<or> (state (gameField g p) = MARKED_AS_BOMB \<and> \<not> isBomb (gameField g p))
                     then (True, False) else (False, win)) True
        = (\<forall>p. inRange (fieldSize g) p \<longrightarrow> \<not> preventsWin (gameField g p))"
    using forEachPos_none [of "\<lambda>p. preventsWin (gameField g p)" "allPositions (fieldSize g)" True]
    by (simp add: forEachCell_def preventsWin_def set_allPositions)
  show ?thesis
    unfolding setWinIfNeeded_def Let_def w
    by (simp only: forEachCell_def forEachPos_fold) auto
qed

lemma notifications_applyAndNotify:
  "\<exists>ns. notifications (applyAndNotify operation p g) = notifications g @ ns"
  by (simp add: applyAndNotify_def notifyCellStateChanged_def split: prod.splits)

lemma notifications_fold_applyAndNotify:
  "\<exists>ns. notifications (fold (applyAndNotify operation) ps g) = notifications g @ ns"
proof (induction ps arbitrary: g)
  case Nil
  then show ?case by simp
next
  case (Cons p ps)
  obtain ns where "notifications (applyAndNotify operation p g) = notifications g @ ns"
    using notifications_applyAndNotify by blast
  moreover obtain ms where "notifications (fold (applyAndNotify operation) ps (applyAndNotify operation p g))
      = notifications (applyAndNotify operation p g) @ ms"
    using Cons by blast
  ultimately show ?case by simp
qed

lemma notifications_placement:
  "notifications (field (placement g rnd)) = notifications (clearCells g)"
proof -
  let ?I = "\<lambda>s. notifications (field s) = notifications (clearCells g)"
  have "?I (placement g rnd)"
    unfolding placement_def by (rule placeBombs_invariant) simp_all
  then show ?thesis .
qed

lemma notifications_setBombsOnGameField:
  "\<exists>ns. notifications (setBombsOnGameField g rnd) = notifications g @ ns @ [GameStateChanged READY]"
  using notifications_fold_applyAndNotify [of clear "allPositions (fieldSize g)" g]
  by (auto simp: setBombsOnGameField_def notifications_placement clearCells_fold)

lemma gameState_setBombsOnGameField [simp]: "gameState (setBombsOnGameField g rnd) = READY"
  by (simp add: setBombsOnGameField_def)

text \<open>
  Claim C6, as amended. In a game that is INITIATED, WIN or LOSS, \<open>openCell\<close> and
  \<open>toggleCellBombMark\<close> return at once, with any arguments: no notification, the same game
  state, the same cells. \<open>restartGame\<close> has no such gate: it puts every cell of the grid
  back to INITIAL, places the bombs again, and sets and notifies the game state READY.
\<close>

theorem gated_commands_are_silent:
  assumes "gameState g = INITIATED \<or> gameState g = WIN \<or> gameState g = LOSS"
  shows "openCell g x y = Inr g \<and> toggleCellBombMark g x y = Inr g
         \<and> gameState (restartGame g rnd) = READY
         \<and> (\<exists>ns. notifications (restartGame g rnd) = notifications g @ ns @ [GameStateChanged READY])
         \<and> (\<forall>p. inRange (fieldSize g) p \<longrightarrow> state (gameField (restartGame g rnd) p) = INITIAL)"
  using assms notifications_setBombsOnGameField [of g rnd]
  by (auto simp: openCell_gated toggleCellBombMark_gated restartGame_def
        setBombsOnGameField_def state_placement)

theorem gated_commands_are_silent_witness:
  "(gameState lostGame = INITIATED \<or> gameState lostGame = WIN \<or> gameState lostGame = LOSS)
   \<and> openCell lostGame 0 0 = Inr lostGame \<and> toggleCellBombMark lostGame 0 0 = Inr lostGame
   \<and> gameState (restartGame lostGame cornerDraws) = READY
   \<and> (\<exists>ns. notifications (restartGame lostGame cornerDraws)
              = notifications lostGame @ ns @ [GameStateChanged READY])
   \<and> state (gameField (restartGame lostGame cornerDraws) (0, 1)) = INITIAL"
proof -
  have "gameState lostGame = LOSS" by code_simp
  then have h: "gameState lostGame = INITIATED \<or> gameState lostGame = WIN \<or> gameState lostGame = LOSS"
    by simp
  have "inRange (fieldSize lostGame) (0, 1)" by code_simp
  with gated_commands_are_silent [OF h, of 0 0 cornerDraws] h show ?thesis by blast
qed

text \<open>
  Claim C6 as stated fails for \<open>restartGame\<close>: issued on a lost game, it changes the game
  state, fires notifications and changes cells.
\<close>

theorem restart_not_gated_counterexample:
  "gameState lostGame = LOSS
   \<and> gameState (restartGame lostGame cornerDraws) \<noteq> gameState lostGame
   \<and> notifications (restartGame lostGame cornerDraws) \<noteq> notifications lostGame
   \<and> state (gameField lostGame (0, 1)) = DETONATED
   \<and> state (gameField (restartGame lostGame cornerDraws) (0, 1)) = INITIAL"
  by code_simp

text \<open>
  Claim C10. For all coordinates, \<open>openCell\<close> and \<open>toggleCellBombMark\<close> test the game state
  before they touch the grid: in a game that is INITIATED, WIN or LOSS they return the
  engine unchanged whatever the coordinates are, in a game that is READY or RUNNING
  coordinates outside the grid end in the TypeError of the unguarded indexing, and a call
  that throws was made in a READY or RUNNING game with coordinates outside the grid.
\<close>

theorem gate_precedes_grid_access:
  "(gameState g = INITIATED \<or> gameState g = WIN \<or> gameState g = LOSS \<longrightarrow>
      openCell g x y = Inr g \<and> toggleCellBombMark g x y = Inr g)
   \<and> ((gameState g = READY \<or> gameState g = RUNNING)
        \<and> (x < 0 \<or> int (fieldSize g) \<le> x \<or> y < 0 \<or> int (fieldSize g) \<le> y) \<longrightarrow>
      openCell g x y = Inl (TypeError, snd (startGameIfNeeded g))
      \<and> toggleCellBombMark g x y = Inl (TypeError, snd (startGameIfNeeded g)))
   \<and> (openCell g x y = Inl (e, g') \<or> toggleCellBombMark g x y = Inl (e, g') \<longrightarrow>
      (gameState g = READY \<or> gameState g = RUNNING)
      \<and> (x < 0 \<or> int (fieldSize g) \<le> x \<or> y < 0 \<or> int (fieldSize g) \<le> y))"
  by (cases e)
     (auto simp: openCell_gated toggleCellBombMark_gated openCell_error_iff
        toggleCellBombMark_error_iff lookupCell_None)

theorem gate_precedes_grid_access_witness:
  "(gameState lostGame = INITIATED \<or> gameState lostGame = WIN \<or> gameState lostGame = LOSS)
   \<and> openCell lostGame 7 (- 1) = Inr lostGame
   \<and> toggleCellBombMark lostGame 7 (- 1) = Inr lostGame
   \<and> (gameState (Minesweeper 2 1 cornerDraws) = READY
        \<or> gameState (Minesweeper 2 1 cornerDraws) = RUNNING)
   \<and> ((7 :: int) < 0 \<or> int (fieldSize (Minesweeper 2 1 cornerDraws)) \<le> 7
        \<or> (- 1 :: int) < 0 \<or> int (fieldSize (Minesweeper 2 1 cornerDraws)) \<le> - 1)
   \<and> openCell (Minesweeper 2 1 cornerDraws) 7 (- 1)
       = Inl (TypeError, snd (startGameIfNeeded (Minesweeper 2 1 cornerDraws)))
   \<and> toggleCellBombMark (Minesweeper 2 1 cornerDraws) 7 (- 1)
       = Inl (TypeError, snd (startGameIfNeeded (Minesweeper 2 1 cornerDraws)))"
proof -
  have lost: "gameState lostGame = LOSS" by code_simp
  have ready: "gameState (Minesweeper 2 1 cornerDraws) = READY"
    by (simp add: Minesweeper_def)
  have size: "fieldSize (Minesweeper 2 1 cornerDraws) = 2"
    by (simp add: Minesweeper_def setBombsOnGameField_def initiated_def)
  from gate_precedes_grid_access [of lostGame 7 "- 1"]
    gate_precedes_grid_access [of "Minesweeper 2 1 cornerDraws" 7 "- 1"] lost ready size
  show ?thesis by simp
qed

section \<open>Marking a cell\<close>

lemma notifyCellStateChanged_unopened:
  "state (gameField g p) \<noteq> OPENED \<Longrightarrow>
   notifyCellStateChanged g p =
     g\<lparr>notifications := notifications g @ [CellStateChanged (fst p) (snd p) (state (gameField g p)) None]\<rparr>"
  by (simp add: notifyCellStateChanged_def getCellData_def Let_def)

lemma setWinIfNeeded_prevented:
  "inRange (fieldSize g) q \<Longrightarrow> preventsWin (gameField g q) \<Longrightarrow> setWinIfNeeded g = g"
  by (cases q) (auto simp: setWinIfNeeded_cases)

lemma cell_state_same: "state c = s \<Longrightarrow> c\<lparr>state := s\<rparr> = c"
  by auto

lemma toggle_initial:
  assumes "gameState g = RUNNING" "lookupCell g x y = Some p" "state (gameField g p) = INITIAL"
  shows "toggleCellBombMark g x y =
           Inr (setWinIfNeeded
                  (g\<lparr>gameField := (gameField g)(p := (gameField g p)\<lparr>state := MARKED_AS_BOMB\<rparr>),
                     notifications := notifications g
                        @ [CellStateChanged (fst p) (snd p) MARKED_AS_BOMB None]\<rparr>))"
  using assms
  by (simp add: toggleCellBombMark_def startGameIfNeeded_cases toggleBombMark_def
        notifyCellStateChanged_unopened setCell_def)

lemma toggle_marked:
  assumes "gameState g = RUNNING" "lookupCell g x y = Some p" "state (gameField g p) = MARKED_AS_BOMB"
  shows "toggleCellBombMark g x y =
           Inr (g\<lparr>gameField := (gameField g)(p := (gameField g p)\<lparr>state := INITIAL\<rparr>),
                  notifications := notifications g
                        @ [CellStateChanged (fst p) (snd p) INITIAL None]\<rparr>)"
proof -
  let ?g' = "g\<lparr>gameField := (gameField g)(p := (gameField g p)\<lparr>state := INITIAL\<rparr>),
                  notifications := notifications g
                        @ [CellStateChanged (fst p) (snd p) INITIAL None]\<rparr>"
  have "inRange (fieldSize ?g') p" using lookupCell_Some [OF assms(2)] by simp
  moreover have "preventsWin (gameField ?g' p)" by (simp add: preventsWin_def)
  ultimately have "setWinIfNeeded ?g' = ?g'" by (rule setWinIfNeeded_prevented)
  then show ?thesis
    using assms
    by (simp add: toggleCellBombMark_def startGameIfNeeded_cases toggleBombMark_def
        notifyCellStateChanged_unopened setCell_def)
qed

text \<open>
  Claim C9, as amended. In a RUNNING game, on a cell of the grid that is INITIAL, and
  provided that the mark does not complete the win (the cell holds no bomb, or some other
  cell is INITIAL or marked without holding a bomb), two calls of \<open>toggleCellBombMark\<close>
  on the cell's coordinates leave the engine as it was, but for exactly two notifications
  for that cell, \<open>MARKED_AS_BOMB\<close> and then INITIAL; in between only that cell differs.
\<close>

theorem toggle_twice_restores:
  assumes "gameState g = RUNNING"
    and "lookupCell g x y = Some p"
    and "state (gameField g p) = INITIAL"
    and "\<not> isBomb (gameField g p)
         \<or> (\<exists>q. inRange (fieldSize g) q \<and> q \<noteq> p \<and> preventsWin (gameField g q))"
  shows "\<exists>g1 g2. toggleCellBombMark g x y = Inr g1 \<and> toggleCellBombMark g1 x y = Inr g2
           \<and> g1 = g\<lparr>gameField := (gameField g)(p := (gameField g p)\<lparr>state := MARKED_AS_BOMB\<rparr>),
                     notifications := notifications g
                        @ [CellStateChanged (fst p) (snd p) MARKED_AS_BOMB None]\<rparr>
           \<and> g2 = g\<lparr>notifications := notifications g
                        @ [CellStateChanged (fst p) (snd p) MARKED_AS_BOMB None,
                           CellStateChanged (fst p) (snd p) INITIAL None]\<rparr>"
proof -
  let ?g1 = "g\<lparr>gameField := (gameField g)(p := (gameField g p)\<lparr>state := MARKED_AS_BOMB\<rparr>),
                     notifications := notifications g
                        @ [CellStateChanged (fst p) (snd p) MARKED_AS_BOMB None]\<rparr>"
  have inr: "inRange (fieldSize g) p" using lookupCell_Some [OF assms(2)] by simp
  obtain q where q: "inRange (fieldSize ?g1) q" "preventsWin (gameField ?g1 q)"
  proof (cases "isBomb (gameField g p)")
    case False
    with inr have "inRange (fieldSize ?g1) p" "preventsWin (gameField ?g1 p)"
      by (simp_all add: preventsWin_def)
    then show ?thesis by (rule that)
  next
    case True
    with assms(4) obtain q where "inRange (fieldSize g) q" "q \<noteq> p" "preventsWin (gameField g q)"
      by blast
    then have "inRange (fieldSize ?g1) q" "preventsWin (gameField ?g1 q)" by simp_all
    then show ?thesis by (rule that)
  qed
  have "setWinIfNeeded ?g1 = ?g1" using q by (rule setWinIfNeeded_prevented)
  with toggle_initial [OF assms(1-3)] have t1: "toggleCellBombMark g x y = Inr ?g1" by simp
  have "gameState ?g1 = RUNNING" "lookupCell ?g1 x y = Some p"
       "state (gameField ?g1 p) = MARKED_AS_BOMB"
    using assms(1,2) by (simp_all add: lookupCell_def)
  from toggle_marked [OF this]
  have t2: "toggleCellBombMark ?g1 x y =
     Inr (g\<lparr>notifications := notifications g
                        @ [CellStateChanged (fst p) (snd p) MARKED_AS_BOMB None,
                           CellStateChanged (fst p) (snd p) INITIAL None]\<rparr>)"
    using assms(3) by (simp add: cell_state_same)
  from t1 t2 show ?thesis by blast
qed

theorem toggle_twice_restores_witness:
  "gameState oneOpened = RUNNING
   \<and> lookupCell oneOpened 1 0 = Some (1, 0)
   \<and> state (gameField oneOpened (1, 0)) = INITIAL
   \<and> (\<exists>g1 g2. toggleCellBombMark oneOpened 1 0 = Inr g1 \<and> toggleCellBombMark g1 1 0 = Inr g2
           \<and> g1 = oneOpened\<lparr>gameField := (gameField oneOpened)
                                  ((1, 0) := (gameField oneOpened (1, 0))\<lparr>state := MARKED_AS_BOMB\<rparr>),
                     notifications := notifications oneOpened
                        @ [CellStateChanged 1 0 MARKED_AS_BOMB None]\<rparr>
           \<and> g2 = oneOpened\<lparr>notifications := notifications oneOpened
                        @ [CellStateChanged 1 0 MARKED_AS_BOMB None,
                           CellStateChanged 1 0 INITIAL None]\<rparr>)"
proof -
  have h1: "gameState oneOpened = RUNNING" by code_simp
  have h2: "lookupCell oneOpened 1 0 = Some (1, 0)" by code_simp
  have h3: "state (gameField oneOpened (1, 0)) = INITIAL" by code_simp
  have "\<not> isBomb (gameField oneOpened (1, 0))" by code_simp
  then have h4: "\<not> isBomb (gameField oneOpened (1, 0))
         \<or> (\<exists>q. inRange (fieldSize oneOpened) q \<and> q \<noteq> (1, 0) \<and> preventsWin (gameField oneOpened q))"
    by simp
  from toggle_twice_restores [OF h1 h2 h3 h4] h1 h2 h3 show ?thesis by simp
qed

text \<open>
  Claim C9 as stated fails when the mark completes the win: with the three cells without
  bomb of a 2 by 2 grid opened, marking the bomb cell ends the game, the cell becomes
  DEFUSED, and the second call is gated by the game state WIN.
\<close>

theorem toggle_twice_counterexample:
  "gameState threeOpened = RUNNING
   \<and> lookupCell threeOpened 0 1 = Some (0, 1)
   \<and> state (gameField threeOpened (0, 1)) = INITIAL
   \<and> state (gameField (play threeOpened [ToggleCellBombMark 0 1, ToggleCellBombMark 0 1]) (0, 1))
       = DEFUSED
   \<and> gameState (play threeOpened [ToggleCellBombMark 0 1, ToggleCellBombMark 0 1]) = WIN
   \<and> notifications (play threeOpened [ToggleCellBombMark 0 1, ToggleCellBombMark 0 1])
       = notifications threeOpened
           @ [CellStateChanged 0 1 MARKED_AS_BOMB None, CellStateChanged 0 1 DEFUSED None,
              GameStateChanged WIN]"
  by code_simp

section \<open>Winning on the 2 by 2 grid\<close>

lemma lookupCell_int:
  "inRange (fieldSize g) p \<Longrightarrow> lookupCell g (int (fst p)) (int (snd p)) = Some p"
  by (simp add: lookupCell_def inRange_def)

lemma adjacent_bomb_counts:
  "q \<in> set (adjacentPositions (fieldSize g) p) \<Longrightarrow> isBomb (gameField g q) \<Longrightarrow>
   getNumberAdjacentBombs g p \<noteq> 0"
  by (auto simp: getNumberAdjacentBombs_eq filter_empty_conv)

lemma openCell_number_or_settled:
  assumes "gameState g = RUNNING" "inRange (fieldSize g) p" "\<not> isBomb (gameField g p)"
    and "getNumberAdjacentBombs g p \<noteq> 0 \<or> \<not> unsettledCell (gameField g p)"
  shows "openCell g (int (fst p)) (int (snd p))
           = Inr (setWinIfNeeded (applyAndNotify openOrDetonate p g))"
proof -
  have "openCells g [p] = Inr (applyAndNotify openOrDetonate p g)"
  proof (cases "unsettledCell (gameField g p)")
    case True
    with assms show ?thesis by (simp add: openCells_number)
  next
    case False
    with assms show ?thesis
      by (simp add: openCells_settled applyAndNotify_openOrDetonate_settled)
  qed
  with assms show ?thesis
    by (simp add: openCell_def startGameIfNeeded_cases lookupCell_int)
qed

lemma two_by_two_adjacent:
  "inRange 2 p \<Longrightarrow> inRange 2 q \<Longrightarrow> p \<noteq> q \<Longrightarrow> q \<in> set (adjacentPositions 2 p)"
  by (auto simp: adjacent_iff inRange_def)

lemma open_on_two_by_two:
  assumes "fieldSize g = 2" "gameState g = RUNNING" "inRange 2 b" "isBomb (gameField g b)"
    and "inRange 2 p" "p \<noteq> b" "\<not> isBomb (gameField g p)"
  shows "execute (OpenCell (int (fst p)) (int (snd p))) g
           = setWinIfNeeded (applyAndNotify openOrDetonate p g)"
proof -
  have "b \<in> set (adjacentPositions (fieldSize g) p)"
    using assms by (simp add: two_by_two_adjacent)
  then have "getNumberAdjacentBombs g p \<noteq> 0"
    using assms(4) by (rule adjacent_bomb_counts)
  then show ?thesis
    using assms openCell_number_or_settled [of g p] by (simp add: afterCall_def)
qed

lemma preventsWin_unsettled: "unsettledCell c \<Longrightarrow> \<not> isBomb c \<Longrightarrow> preventsWin c"
  by (auto simp: preventsWin_def unsettledCell_def)

lemma state_opened_no_bomb:
  "unsettledCell c \<Longrightarrow> \<not> isBomb c \<Longrightarrow> state (snd (openOrDetonate c)) = OPENED"
  by (simp add: openOrDetonate_cases)

lemma three_opens_on_two_by_two:
  assumes size: "fieldSize g = 2" and run: "gameState g = RUNNING"
    and b: "inRange 2 b" "isBomb (gameField g b)"
    and bstate: "state (gameField g b) = MARKED_AS_BOMB \<or> state (gameField g b) = INITIAL"
    and others: "\<forall>q. inRange 2 q \<and> q \<noteq> b \<longrightarrow> \<not> isBomb (gameField g q) \<and> unsettledCell (gameField g q)"
    and ps: "distinct [p1, p2, p3]" "set [p1, p2, p3] = {q. inRange 2 q \<and> q \<noteq> b}"
  shows "(if state (gameField g b) = MARKED_AS_BOMB
          then gameState (play g [OpenCell (int (fst p1)) (int (snd p1)),
                                  OpenCell (int (fst p2)) (int (snd p2)),
                                  OpenCell (int (fst p3)) (int (snd p3))]) = WIN
               \<and> state (gameField (play g [OpenCell (int (fst p1)) (int (snd p1)),
                                  OpenCell (int (fst p2)) (int (snd p2)),
                                  OpenCell (int (fst p3)) (int (snd p3))]) b) = DEFUSED
          else gameState (play g [OpenCell (int (fst p1)) (int (snd p1)),
                                  OpenCell (int (fst p2)) (int (snd p2)),
                                  OpenCell (int (fst p3)) (int (snd p3))]) = RUNNING
               \<and> state (gameField (play g [OpenCell (int (fst p1)) (int (snd p1)),
                                  OpenCell (int (fst p2)) (int (snd p2)),
                                  OpenCell (int (fst p3)) (int (snd p3))]) b) = INITIAL)"
proof -
  define g1 where "g1 = applyAndNotify openOrDetonate p1 g"
  define g2 where "g2 = applyAndNotify openOrDetonate p2 g1"
  define g3 where "g3 = applyAndNotify openOrDetonate p3 g2"
  have mem: "p1 \<in> {q. inRange 2 q \<and> q \<noteq> b}" "p2 \<in> {q. inRange 2 q \<and> q \<noteq> b}"
    "p3 \<in> {q. inRange 2 q \<and> q \<noteq> b}"
    using ps(2) by auto
  then have p: "inRange 2 p1" "p1 \<noteq> b" "inRange 2 p2" "p2 \<noteq> b" "inRange 2 p3" "p3 \<noteq> b"
    by simp_all
  have d: "p1 \<noteq> p2" "p1 \<noteq> p3" "p2 \<noteq> p3" using ps(1) by simp_all
  have o: "\<not> isBomb (gameField g p1)" "unsettledCell (gameField g p1)"
    "\<not> isBomb (gameField g p2)" "unsettledCell (gameField g p2)"
    "\<not> isBomb (gameField g p3)" "unsettledCell (gameField g p3)"
    using others p by blast+
  \<comment> \<open>first open\<close>
  have "preventsWin (gameField g1 p2)"
    using o d by (simp add: g1_def preventsWin_unsettled)
  then have w1: "setWinIfNeeded g1 = g1"
    using p(3) size by (intro setWinIfNeeded_prevented [of _ p2]) (simp_all add: g1_def)
  have e1: "execute (OpenCell (int (fst p1)) (int (snd p1))) g = g1"
    using open_on_two_by_two [OF size run b p(1,2) o(1)] w1 by (simp add: g1_def)
  \<comment> \<open>second open\<close>
  have f1: "fieldSize g1 = 2" "gameState g1 = RUNNING" "isBomb (gameField g1 b)"
    "\<not> isBomb (gameField g1 p2)"
    using size run b(2) p o d by (simp_all add: g1_def)
  have "preventsWin (gameField g2 p3)"
    using o d by (simp add: g2_def g1_def preventsWin_unsettled)
  then have w2: "setWinIfNeeded g2 = g2"
    using p(5) size by (intro setWinIfNeeded_prevented [of _ p3]) (simp_all add: g2_def g1_def)
  have e2: "execute (OpenCell (int (fst p2)) (int (snd p2))) g1 = g2"
    using open_on_two_by_two [OF f1(1,2) b(1) f1(3) p(3,4) f1(4)] w2 by (simp add: g2_def)
  \<comment> \<open>third open\<close>
  have f2: "fieldSize g2 = 2" "gameState g2 = RUNNING" "isBomb (gameField g2 b)"
    "\<not> isBomb (gameField g2 p3)"
    using size run b(2) p o d by (simp_all add: g2_def g1_def)
  have e3: "execute (OpenCell (int (fst p3)) (int (snd p3))) g2 = setWinIfNeeded g3"
    using open_on_two_by_two [OF f2(1,2) b(1) f2(3) p(5,6) f2(4)] by (simp add: g3_def)
  have pl: "play g [OpenCell (int (fst p1)) (int (snd p1)),
                    OpenCell (int (fst p2)) (int (snd p2)),
                    OpenCell (int (fst p3)) (int (snd p3))] = setWinIfNeeded g3"
    using e1 e2 e3 by (simp add: play_def)
  have f3: "fieldSize g3 = 2" "gameState g3 = RUNNING" "gameField g3 b = gameField g b"
    using size run p by (simp_all add: g3_def g2_def g1_def)
  have opened: "state (gameField g3 p1) = OPENED" "state (gameField g3 p2) = OPENED"
    "state (gameField g3 p3) = OPENED"
    using o d by (simp_all add: g3_def g2_def g1_def state_opened_no_bomb)
  show ?thesis
  proof (cases "state (gameField g b) = MARKED_AS_BOMB")
    case True
    have "\<not> preventsWin (gameField g3 q)" if "inRange (fieldSize g3) q" for q
    proof (cases "q = b")
      case True
      then show ?thesis using \<open>state (gameField g b) = MARKED_AS_BOMB\<close> b(2) f3(3)
        by (simp add: preventsWin_def)
    next
      case False
      with that f3(1) ps(2) have "q = p1 \<or> q = p2 \<or> q = p3" by auto
      with opened show ?thesis by (auto simp: preventsWin_def)
    qed
    then have "setWinIfNeeded g3
        = setGameState (fold (applyAndNotify openOrDefuse) (allPositions (fieldSize g3)) g3) WIN"
      using f3(2) by (simp add: setWinIfNeeded_cases)
    moreover have "state (snd (openOrDefuse (gameField g b))) = DEFUSED"
      using True b(2) by (simp add: openOrDefuse_cases unsettledCell_def)
    ultimately show ?thesis
      using True b(1) f3
      by (simp add: pl gameField_fold_applyAndNotify distinct_allPositions set_allPositions)
  next
    case False
    with bstate have ini: "state (gameField g b) = INITIAL" by simp
    then have "preventsWin (gameField g3 b)" using f3(3) by (simp add: preventsWin_def)
    then have "setWinIfNeeded g3 = g3"
      using b(1) f3(1) by (intro setWinIfNeeded_prevented [of _ b]) simp_all
    then show ?thesis using ini f3 by (simp add: pl)
  qed
qed

lemma openCell_started:
  "gameState g = READY \<Longrightarrow> openCell g x y = openCell (setGameState g RUNNING) x y"
  by (simp add: openCell_def startGameIfNeeded_cases)

text \<open>
  Claim C2, as amended. On a 2 by 2 grid with one bomb, in a READY or RUNNING game whose three
  cells without bomb are not opened yet: when \<open>openCell\<close> has been called on each of the
  three, in any order, the game state is WIN and the bomb cell is DEFUSED if the bomb cell
  was marked; if the bomb cell was left INITIAL, the game is still RUNNING and the bomb
  cell still INITIAL, since an INITIAL cell keeps \<open>_setWinIfNeeded\<close> from declaring the win.
\<close>

theorem win_on_two_by_two:
  assumes size: "fieldSize g = 2" and live: "gameState g = READY \<or> gameState g = RUNNING"
    and b: "inRange 2 b" "isBomb (gameField g b)"
    and bstate: "state (gameField g b) = MARKED_AS_BOMB \<or> state (gameField g b) = INITIAL"
    and others: "\<forall>q. inRange 2 q \<and> q \<noteq> b \<longrightarrow> \<not> isBomb (gameField g q) \<and> unsettledCell (gameField g q)"
    and ps: "distinct [p1, p2, p3]" "set [p1, p2, p3] = {q. inRange 2 q \<and> q \<noteq> b}"
  shows "(if state (gameField g b) = MARKED_AS_BOMB
          then gameState (play g [OpenCell (int (fst p1)) (int (snd p1)),
                                  OpenCell (int (fst p2)) (int (snd p2)),
                                  OpenCell (int (fst p3)) (int (snd p3))]) = WIN
               \<and> state (gameField (play g [OpenCell (int (fst p1)) (int (snd p1)),
                                  OpenCell (int (fst p2)) (int (snd p2)),
                                  OpenCell (int (fst p3)) (int (snd p3))]) b) = DEFUSED
          else gameState (play g [OpenCell (int (fst p1)) (int (snd p1)),
                                  OpenCell (int (fst p2)) (int (snd p2)),
                                  OpenCell (int (fst p3)) (int (snd p3))]) = RUNNING
               \<and> state (gameField (play g [OpenCell (int (fst p1)) (int (snd p1)),
                                  OpenCell (int (fst p2)) (int (snd p2)),
                                  OpenCell (int (fst p3)) (int (snd p3))]) b) = INITIAL)"
proof (cases "gameState g = RUNNING")
  case True
  from three_opens_on_two_by_two [OF size True b bstate others ps] show ?thesis .
next
  case False
  with live have ready: "gameState g = READY" by simp
  let ?g0 = "setGameState g RUNNING"
  have same: "play g [OpenCell (int (fst p1)) (int (snd p1)),
                      OpenCell (int (fst p2)) (int (snd p2)),
                      OpenCell (int (fst p3)) (int (snd p3))]
              = play ?g0 [OpenCell (int (fst p1)) (int (snd p1)),
                          OpenCell (int (fst p2)) (int (snd p2)),
                          OpenCell (int (fst p3)) (int (snd p3))]"
    using openCell_started [OF ready] by (simp add: play_def)
  have "fieldSize ?g0 = 2" "gameState ?g0 = RUNNING" "isBomb (gameField ?g0 b)"
    "state (gameField ?g0 b) = MARKED_AS_BOMB \<or> state (gameField ?g0 b) = INITIAL"
    "\<forall>q. inRange 2 q \<and> q \<noteq> b \<longrightarrow>
        \<not> isBomb (gameField ?g0 q) \<and> unsettledCell (gameField ?g0 q)"
    using size b(2) bstate others by simp_all
  from three_opens_on_two_by_two [OF this(1,2) b(1) this(3,4,5) ps]
  show ?thesis unfolding same by simp
qed

lemma inRange_two: "inRange 2 q \<longleftrightarrow> q = (0, 0) \<or> q = (0, 1) \<or> q = (1, 0) \<or> q = (1, 1)"
  by (cases q) (auto simp: inRange_def less_2_cases_iff)

theorem win_on_two_by_two_witness:
  "fieldSize bombMarked = 2 \<and> gameState bombMarked = RUNNING
   \<and> isBomb (gameField bombMarked (0, 1))
   \<and> state (gameField bombMarked (0, 1)) = MARKED_AS_BOMB
   \<and> gameState (play bombMarked [OpenCell 0 0, OpenCell 1 0, OpenCell 1 1]) = WIN
   \<and> state (gameField (play bombMarked [OpenCell 0 0, OpenCell 1 0, OpenCell 1 1]) (0, 1)) = DEFUSED"
proof -
  have h1: "fieldSize bombMarked = 2" by code_simp
  have h2: "gameState bombMarked = RUNNING" by code_simp
  have h3: "inRange 2 (0, 1)" by (simp add: inRange_def)
  have h4: "isBomb (gameField bombMarked (0, 1))" by code_simp
  have m: "state (gameField bombMarked (0, 1)) = MARKED_AS_BOMB" by code_simp
  then have h5: "state (gameField bombMarked (0, 1)) = MARKED_AS_BOMB
                 \<or> state (gameField bombMarked (0, 1)) = INITIAL" by simp
  have c: "\<not> isBomb (gameField bombMarked (0, 0)) \<and> unsettledCell (gameField bombMarked (0, 0))"
    "\<not> isBomb (gameField bombMarked (1, 0)) \<and> unsettledCell (gameField bombMarked (1, 0))"
    "\<not> isBomb (gameField bombMarked (1, 1)) \<and> unsettledCell (gameField bombMarked (1, 1))"
    by code_simp+
  have h6: "\<forall>q. inRange 2 q \<and> q \<noteq> (0, 1) \<longrightarrow>
              \<not> isBomb (gameField bombMarked q) \<and> unsettledCell (gameField bombMarked q)"
    using c unfolding inRange_two by blast
  have h7: "distinct [(0, 0), (1, 0), (1, 1 :: nat) :: pos]" by simp
  have h8: "set [(0, 0), (1, 0), (1, 1)] = {q. inRange 2 q \<and> q \<noteq> (0, 1)}"
    unfolding inRange_two by auto
  from h2 have h2': "gameState bombMarked = READY \<or> gameState bombMarked = RUNNING" by simp
  from win_on_two_by_two [OF h1 h2' h3 h4 h5 h6 h7 h8] m h1 h2 h4 show ?thesis by simp
qed

text \<open>
  Claim C2 as stated fails for the bomb cell left untouched: with the three cells without
  bomb opened and the bomb cell INITIAL, the game is still RUNNING and the bomb cell still
  INITIAL.
\<close>

theorem untouched_bomb_counterexample:
  "fieldSize threeOpened = 2 \<and> numberOfBombs threeOpened = 1
   \<and> isBomb (gameField threeOpened (0, 1))
   \<and> state (gameField threeOpened (0, 0)) = OPENED
   \<and> state (gameField threeOpened (1, 0)) = OPENED
   \<and> state (gameField threeOpened (1, 1)) = OPENED
   \<and> gameState threeOpened = RUNNING
   \<and> state (gameField threeOpened (0, 1)) = INITIAL"
  by code_simp

section \<open>Detonation\<close>

lemma settled_iff:
  "\<not> unsettledCell c \<longleftrightarrow> state c = OPENED \<or> state c = DEFUSED \<or> state c = DETONATED"
  by (cases "state c") (simp_all add: unsettledCell_def)

lemma openOrDetonate_settled [simp]: "\<not> unsettledCell (snd (openOrDetonate c))"
  by (simp add: openOrDetonate_cases unsettledCell_def)

lemma openOrDetonate_settled_same: "\<not> unsettledCell c \<Longrightarrow> snd (openOrDetonate c) = c"
  by (simp add: openOrDetonate_cases)

lemma openCells_result:
  "openCells g ps = Inr g' \<Longrightarrow>
   (\<forall>q. \<not> unsettledCell (gameField g q) \<longrightarrow> gameField g' q = gameField g q)
   \<and> ((gameState g' = gameState g
         \<and> (\<forall>q. state (gameField g' q) = DETONATED \<longrightarrow> state (gameField g q) = DETONATED))
        \<or> (gameState g' = LOSS
            \<and> (\<forall>q. inRange (fieldSize g) q \<longrightarrow> \<not> unsettledCell (gameField g' q))))"
proof (induction g ps rule: openCells_cases)
  case (Nil g)
  then show ?case by simp
next
  case (OutOfRange g p ps)
  then show ?case by (simp add: openCells_out_of_range)
next
  case (Settled g p ps)
  then show ?case by (simp add: openCells_settled)
next
  case (Detonate g p ps)
  let ?g2 = "setLoss (applyAndNotify openOrDetonate p g)"
  from Detonate have run: "openCells ?g2 ps = Inr g'" by (simp add: openCells_detonate)
  note IH = Detonate.IH [OF run]
  have g2: "gameField ?g2 q = (if inRange (fieldSize g) q then snd (openOrDetonate (gameField g q))
                               else gameField g q)" for q
    using Detonate.hyps(1) by (auto simp: gameField_setLoss openOrDetonate_settled_same)
  have same: "gameField g' q = gameField g q" if "\<not> unsettledCell (gameField g q)" for q
  proof -
    from that have "gameField ?g2 q = gameField g q"
      by (simp add: g2 openOrDetonate_settled_same)
    with IH that show ?thesis by simp
  qed
  have "\<not> unsettledCell (gameField g' q)" if "inRange (fieldSize g) q" for q
  proof -
    from that have "\<not> unsettledCell (gameField ?g2 q)" by (simp add: g2)
    with IH show ?thesis by simp
  qed
  moreover have "gameState g' = LOSS" using IH by auto
  ultimately show ?case using same by blast
next
  case (Flood g p ps)
  let ?g1 = "applyAndNotify openOrDetonate p g"
  from Flood have run: "openCells ?g1 (adjacentPositions (fieldSize g) p @ ps) = Inr g'"
    by (simp add: openCells_flood)
  note IH = Flood.IH [OF run]
  have p1: "state (gameField ?g1 p) = OPENED"
    using Flood.hyps by (simp add: openOrDetonate_cases)
  have same: "gameField g' q = gameField g q" if "\<not> unsettledCell (gameField g q)" for q
  proof -
    from that Flood.hyps have "q \<noteq> p" by auto
    then have "gameField ?g1 q = gameField g q" by simp
    with IH that show ?thesis by simp
  qed
  have det: "state (gameField g q) = DETONATED"
    if "state (gameField g' q) = DETONATED"
      "\<forall>q. state (gameField g' q) = DETONATED \<longrightarrow> state (gameField ?g1 q) = DETONATED" for q
  proof -
    from that have "state (gameField ?g1 q) = DETONATED" by blast
    with p1 have "q \<noteq> p" by auto
    with \<open>state (gameField ?g1 q) = DETONATED\<close> show ?thesis by simp
  qed
  from IH same det show ?case by (simp del: gameField_applyAndNotify) blast
next
  case (Number g p ps)
  let ?g1 = "applyAndNotify openOrDetonate p g"
  from Number have run: "openCells ?g1 ps = Inr g'"
    by (simp add: openCells_number)
  note IH = Number.IH [OF run]
  have p1: "state (gameField ?g1 p) = OPENED"
    using Number.hyps by (simp add: openOrDetonate_cases)
  have same: "gameField g' q = gameField g q" if "\<not> unsettledCell (gameField g q)" for q
  proof -
    from that Number.hyps have "q \<noteq> p" by auto
    then have "gameField ?g1 q = gameField g q" by simp
    with IH that show ?thesis by simp
  qed
  have det: "state (gameField g q) = DETONATED"
    if "state (gameField g' q) = DETONATED"
      "\<forall>q. state (gameField g' q) = DETONATED \<longrightarrow> state (gameField ?g1 q) = DETONATED" for q
  proof -
    from that have "state (gameField ?g1 q) = DETONATED" by blast
    with p1 have "q \<noteq> p" by auto
    with \<open>state (gameField ?g1 q) = DETONATED\<close> show ?thesis by simp
  qed
  from IH same det show ?case by (simp del: gameField_applyAndNotify) blast
qed

lemma gameField_setWinIfNeeded:
  "gameField (setWinIfNeeded g) q = gameField g q
   \<or> (gameState (setWinIfNeeded g) = WIN \<and> inRange (fieldSize g) q
       \<and> gameField (setWinIfNeeded g) q = snd (openOrDefuse (gameField g q)))"
  by (simp add: setWinIfNeeded_cases gameField_fold_applyAndNotify distinct_allPositions
        set_allPositions)

lemma openOrDefuse_not_detonated:
  "state (snd (openOrDefuse c)) = DETONATED \<Longrightarrow> state c = DETONATED"
  by (simp add: openOrDefuse_cases split: if_splits)

lemma setWinIfNeeded_not_running: "gameState g \<noteq> RUNNING \<Longrightarrow> setWinIfNeeded g = g"
  by (simp add: setWinIfNeeded_cases)

lemma fieldSize_openCells: "openCells g ps = Inr g' \<Longrightarrow> fieldSize g' = fieldSize g"
  by (induction g ps rule: openCells_cases)
     (simp_all add: openCells_out_of_range openCells_settled openCells_detonate
        openCells_flood openCells_number)

text \<open>
  Claim C4. In a RUNNING game (reachable or not), when a call of \<open>openCell\<close> returns and some
  cell of the grid has become DETONATED in it, the game state is LOSS and every cell of the
  grid is OPENED, DEFUSED or DETONATED: none is left INITIAL or \<open>MARKED_AS_BOMB\<close>.
\<close>

theorem detonation_ends_in_loss:
  assumes "gameState g = RUNNING"
    and "openCell g x y = Inr g'"
    and "\<exists>p. inRange (fieldSize g) p \<and> state (gameField g p) \<noteq> DETONATED
             \<and> state (gameField g' p) = DETONATED"
  shows "gameState g' = LOSS
         \<and> (\<forall>p. inRange (fieldSize g) p \<longrightarrow>
               state (gameField g' p) = OPENED \<or> state (gameField g' p) = DEFUSED
               \<or> state (gameField g' p) = DETONATED)"
proof -
  from assms(1,2) obtain c g2 where c: "lookupCell g x y = Some c"
    and run: "openCells g [c] = Inr g2" and g': "g' = setWinIfNeeded g2"
    by (auto simp: openCell_def startGameIfNeeded_cases split: option.splits sum.splits)
  from assms(3) obtain p where p: "inRange (fieldSize g) p" "state (gameField g p) \<noteq> DETONATED"
    "state (gameField g' p) = DETONATED" by blast
  from openCells_result [OF run]
  consider (quiet) "gameState g2 = gameState g"
      "\<forall>q. state (gameField g2 q) = DETONATED \<longrightarrow> state (gameField g q) = DETONATED"
    | (lost) "gameState g2 = LOSS" "\<forall>q. inRange (fieldSize g) q \<longrightarrow> \<not> unsettledCell (gameField g2 q)"
    by blast
  then show ?thesis
  proof cases
    case quiet
    from gameField_setWinIfNeeded [of g2 p] p(3) g'
    have "state (gameField g2 p) = DETONATED"
      by (auto dest: openOrDefuse_not_detonated)
    with quiet(2) p(2) show ?thesis by blast
  next
    case lost
    then have "g' = g2" using g' by (simp add: setWinIfNeeded_not_running)
    with lost show ?thesis by (simp add: settled_iff)
  qed
qed

lemma openCell_returns:
  "lookupCell g x y \<noteq> None \<Longrightarrow> openCell g x y = Inr (execute (OpenCell x y) g)"
  by (cases "openCell g x y") (auto simp: openCell_error_iff afterCall_def)

theorem detonation_ends_in_loss_witness:
  "gameState oneOpened = RUNNING
   \<and> openCell oneOpened 0 1 = Inr (execute (OpenCell 0 1) oneOpened)
   \<and> inRange (fieldSize oneOpened) (0, 1)
   \<and> state (gameField oneOpened (0, 1)) \<noteq> DETONATED
   \<and> state (gameField (execute (OpenCell 0 1) oneOpened) (0, 1)) = DETONATED
   \<and> gameState (execute (OpenCell 0 1) oneOpened) = LOSS
   \<and> (state (gameField (execute (OpenCell 0 1) oneOpened) (1, 1)) = OPENED
       \<or> state (gameField (execute (OpenCell 0 1) oneOpened) (1, 1)) = DEFUSED
       \<or> state (gameField (execute (OpenCell 0 1) oneOpened) (1, 1)) = DETONATED)"
proof -
  have h1: "gameState oneOpened = RUNNING" by code_simp
  have "lookupCell oneOpened 0 1 \<noteq> None" by code_simp
  then have h2: "openCell oneOpened 0 1 = Inr (execute (OpenCell 0 1) oneOpened)"
    by (rule openCell_returns)
  have r: "inRange (fieldSize oneOpened) (0, 1)" "inRange (fieldSize oneOpened) (1, 1)"
    by code_simp+
  have d: "state (gameField oneOpened (0, 1)) \<noteq> DETONATED"
    "state (gameField (execute (OpenCell 0 1) oneOpened) (0, 1)) = DETONATED"
    by code_simp+
  with r have h3: "\<exists>p. inRange (fieldSize oneOpened) p \<and> state (gameField oneOpened p) \<noteq> DETONATED
             \<and> state (gameField (execute (OpenCell 0 1) oneOpened) p) = DETONATED"
    by blast
  from detonation_ends_in_loss [OF h1 h2 h3] h1 h2 r d show ?thesis by blast
qed

section \<open>The flood keeps the grid consistent\<close>

lemma frame_openCells:
  "openCells g ps = Inr g' \<Longrightarrow>
   fieldSize g' = fieldSize g \<and> (\<forall>q. isBomb (gameField g' q) = isBomb (gameField g q))"
proof (induction g ps rule: openCells_cases)
  case (Detonate g p ps)
  then show ?case by (simp add: openCells_detonate gameField_setLoss)
qed (simp_all add: openCells_out_of_range openCells_settled openCells_flood openCells_number)

lemma getNumberAdjacentBombs_openCells:
  "openCells g ps = Inr g' \<Longrightarrow> getNumberAdjacentBombs g' p = getNumberAdjacentBombs g p"
  using frame_openCells [of g ps g'] by (intro getNumberAdjacentBombs_cong) simp_all

lemma consistent_mono: "consistent g ps \<Longrightarrow> set ps \<subseteq> set ps' \<Longrightarrow> consistent g ps'"
  unfolding consistent_def by blast

lemma consistent_settled_opened:
  "consistent g ps \<Longrightarrow> inRange (fieldSize g) p \<Longrightarrow> \<not> unsettledCell (gameField g p) \<Longrightarrow>
   state (gameField g p) = OPENED"
  unfolding consistent_def unsettledCell_def by blast

lemma consistent_drop_settled:
  assumes "consistent g (p # ps)" "inRange (fieldSize g) p" "\<not> unsettledCell (gameField g p)"
  shows "consistent g ps"
proof -
  have "state (gameField g p) = OPENED"
    using assms by (rule consistent_settled_opened)
  with assms(1) show ?thesis
    unfolding consistent_def by (simp del: One_nat_def) blast
qed

lemma consistent_open:
  assumes c: "consistent g (p # ps)" and p: "inRange (fieldSize g) p" "unsettledCell (gameField g p)"
    "\<not> isBomb (gameField g p)"
  shows "consistent (applyAndNotify openOrDetonate p g)
           ((if getNumberAdjacentBombs g p = 0 then adjacentPositions (fieldSize g) p else []) @ ps)"
proof -
  let ?g1 = "applyAndNotify openOrDetonate p g"
  let ?ps = "(if getNumberAdjacentBombs g p = 0 then adjacentPositions (fieldSize g) p else []) @ ps"
  have at_p: "state (gameField ?g1 p) = OPENED" "\<not> isBomb (gameField ?g1 p)"
    using p by (simp_all add: openOrDetonate_cases)
  have other: "gameField ?g1 r = gameField g r" if "r \<noteq> p" for r
    using that by simp
  have was: "state (gameField g p) \<noteq> OPENED" using p(2) by (auto simp: unsettledCell_def)
  show ?thesis
    unfolding consistent_def
  proof (intro allI impI conjI ballI)
    fix r assume r: "inRange (fieldSize ?g1) r"
    show "state (gameField ?g1 r) = INITIAL \<or> state (gameField ?g1 r) = MARKED_AS_BOMB
           \<or> state (gameField ?g1 r) = OPENED"
    proof (cases "r = p")
      case True
      then show ?thesis using at_p by simp
    next
      case False
      then show ?thesis using c r other unfolding consistent_def by simp
    qed
  next
    fix r assume r: "inRange (fieldSize ?g1) r" "state (gameField ?g1 r) = OPENED"
    show "\<not> isBomb (gameField ?g1 r)"
    proof (cases "r = p")
      case True
      then show ?thesis using at_p by simp
    next
      case False
      then show ?thesis using c r other unfolding consistent_def by simp
    qed
  next
    fix r q assume r: "inRange (fieldSize ?g1) r" "state (gameField ?g1 r) = OPENED"
      "getNumberAdjacentBombs ?g1 r = 0" and q: "q \<in> set (adjacentPositions (fieldSize ?g1) r)"
    show "state (gameField ?g1 q) = OPENED \<or> q \<in> set ?ps"
    proof (cases "r = p")
      case True
      then show ?thesis using r(3) q by simp
    next
      case False
      then have "state (gameField g r) = OPENED" "getNumberAdjacentBombs g r = 0"
        using r other by simp_all
      with c r(1) q have "state (gameField g q) = OPENED \<or> q \<in> set (p # ps)"
        unfolding consistent_def by simp
      then show ?thesis
      proof (cases "q = p")
        case True
        then show ?thesis using at_p by simp
      next
        case False
        with \<open>state (gameField g q) = OPENED \<or> q \<in> set (p # ps)\<close> other
        show ?thesis by auto
      qed
    qed
  qed
qed

text \<open>The recursive open keeps the grid consistent, unless it ends in a loss.\<close>

lemma openCells_consistent:
  "openCells g ps = Inr g' \<Longrightarrow> consistent g ps \<Longrightarrow> gameState g' \<noteq> LOSS \<Longrightarrow>
   consistent g' [] \<and> (\<forall>p \<in> set ps. state (gameField g' p) = OPENED)"
proof (induction g ps rule: openCells_cases)
  case (Nil g)
  then show ?case by simp
next
  case (OutOfRange g p ps)
  then show ?case by (simp add: openCells_out_of_range)
next
  case (Settled g p ps)
  from Settled.prems(1) Settled.hyps have run: "openCells g ps = Inr g'"
    by (simp add: openCells_settled)
  have "consistent g ps"
    using Settled.prems(2) Settled.hyps by (rule consistent_drop_settled)
  from Settled.IH [OF run this Settled.prems(3)]
  have IH: "consistent g' []" "\<forall>p \<in> set ps. state (gameField g' p) = OPENED" by simp_all
  have "state (gameField g p) = OPENED"
    using Settled.prems(2) Settled.hyps by (rule consistent_settled_opened)
  moreover have "gameField g' p = gameField g p"
    using openCells_result [OF run] Settled.hyps by blast
  ultimately show ?case using IH by simp
next
  case (Detonate g p ps)
  from Detonate.prems(1) Detonate.hyps
  have run: "openCells (setLoss (applyAndNotify openOrDetonate p g)) ps = Inr g'"
    by (simp add: openCells_detonate)
  from openCells_result [OF run] have "gameState g' = LOSS" by auto
  with Detonate.prems(3) show ?case by simp
next
  case (Flood g p ps)
  let ?g1 = "applyAndNotify openOrDetonate p g"
  from Flood.prems(1) Flood.hyps
  have run: "openCells ?g1 (adjacentPositions (fieldSize g) p @ ps) = Inr g'"
    by (simp add: openCells_flood)
  have "consistent ?g1 (adjacentPositions (fieldSize g) p @ ps)"
    using consistent_open [OF Flood.prems(2) Flood.hyps(1-3)] Flood.hyps(4) by simp
  from Flood.IH [OF run this Flood.prems(3)]
  have IH: "consistent g' []" "\<forall>p \<in> set ps. state (gameField g' p) = OPENED" by simp_all
  have "state (gameField ?g1 p) = OPENED" "\<not> unsettledCell (gameField ?g1 p)"
    using Flood.hyps by (simp_all add: openOrDetonate_cases unsettledCell_def)
  moreover from this have "gameField g' p = gameField ?g1 p"
    using openCells_result [OF run] by blast
  ultimately show ?case using IH by simp
next
  case (Number g p ps)
  let ?g1 = "applyAndNotify openOrDetonate p g"
  from Number.prems(1) Number.hyps
  have run: "openCells ?g1 ps = Inr g'"
    by (simp add: openCells_number)
  have "consistent ?g1 ps"
    using consistent_open [OF Number.prems(2) Number.hyps(1-3)] Number.hyps(4) by simp
  from Number.IH [OF run this Number.prems(3)]
  have IH: "consistent g' []" "\<forall>p \<in> set ps. state (gameField g' p) = OPENED" by simp_all
  have "state (gameField ?g1 p) = OPENED" "\<not> unsettledCell (gameField ?g1 p)"
    using Number.hyps by (simp_all add: openOrDetonate_cases unsettledCell_def)
  moreover from this have "gameField g' p = gameField ?g1 p"
    using openCells_result [OF run] by blast
  ultimately show ?case using IH by simp
qed

text \<open>
  The recursive open stays inside a set of cells without bombs that contains the adjacent
  cells of each of its cells without adjacent bombs.
\<close>

lemma openCells_inside:
  "openCells g ps = Inr g' \<Longrightarrow> set ps \<subseteq> R \<Longrightarrow>
   (\<forall>p \<in> R. \<not> isBomb (gameField g p)) \<Longrightarrow>
   (\<forall>p \<in> R. getNumberAdjacentBombs g p = 0 \<longrightarrow> set (adjacentPositions (fieldSize g) p) \<subseteq> R) \<Longrightarrow>
   gameState g' = gameState g \<and> (\<forall>q. q \<notin> R \<longrightarrow> gameField g' q = gameField g q)"
proof (induction g ps rule: openCells_cases)
  case (Nil g)
  then show ?case by simp
next
  case (OutOfRange g p ps)
  then show ?case by (simp add: openCells_out_of_range)
next
  case (Settled g p ps)
  then show ?case by (simp add: openCells_settled)
next
  case (Detonate g p ps)
  then show ?case by auto
next
  case (Flood g p ps)
  let ?g1 = "applyAndNotify openOrDetonate p g"
  from Flood.prems(1) Flood.hyps
  have run: "openCells ?g1 (adjacentPositions (fieldSize g) p @ ps) = Inr g'"
    by (simp add: openCells_flood)
  have pR: "p \<in> R" using Flood.prems(2) by simp
  then have sub: "set (adjacentPositions (fieldSize g) p @ ps) \<subseteq> R"
    using Flood.prems(2,4) Flood.hyps(4) by auto
  have "gameState g' = gameState ?g1 \<and> (\<forall>q. q \<notin> R \<longrightarrow> gameField g' q = gameField ?g1 q)"
    using Flood.prems(3,4) by (intro Flood.IH [OF run sub]) simp_all
  with pR show ?case by auto
next
  case (Number g p ps)
  let ?g1 = "applyAndNotify openOrDetonate p g"
  from Number.prems(1) Number.hyps
  have run: "openCells ?g1 ps = Inr g'"
    by (simp add: openCells_number)
  have pR: "p \<in> R" using Number.prems(2) by simp
  have sub: "set ps \<subseteq> R" using Number.prems(2) by simp
  have "gameState g' = gameState ?g1 \<and> (\<forall>q. q \<notin> R \<longrightarrow> gameField g' q = gameField ?g1 q)"
    using Number.prems(3,4) by (intro Number.IH [OF run sub]) simp_all
  with pR show ?case by auto
qed

section \<open>Reachable games are consistent\<close>

lemma consistent_setBombsOnGameField: "consistent (setBombsOnGameField g rnd) ps"
  by (simp add: consistent_def setBombsOnGameField_def state_placement)

lemma consistent_cong:
  "fieldSize g' = fieldSize g \<Longrightarrow> gameField g' = gameField g \<Longrightarrow>
   consistent g' ps = consistent g ps"
  by (simp add: consistent_def getNumberAdjacentBombs_eq)

lemma setWinIfNeeded_not_won: "gameState (setWinIfNeeded g) \<noteq> WIN \<Longrightarrow> setWinIfNeeded g = g"
  by (auto simp: setWinIfNeeded_cases split: if_splits)

lemma setWinIfNeeded_won:
  assumes "gameState g = RUNNING" "gameState (setWinIfNeeded g) = WIN"
  shows "(\<forall>p. inRange (fieldSize g) p \<longrightarrow> \<not> preventsWin (gameField g p))"
    and "gameField (setWinIfNeeded g) p
           = (if inRange (fieldSize g) p then snd (openOrDefuse (gameField g p)) else gameField g p)"
  using assms
  by (auto simp: setWinIfNeeded_cases gameField_fold_applyAndNotify distinct_allPositions
        set_allPositions split: if_splits)

lemma consistent_toggle:
  assumes "consistent g []" "inRange (fieldSize g) p"
  shows "consistent (setCell g p (snd (toggleBombMark (gameField g p)))) []"
proof (cases "unsettledCell (gameField g p)")
  case False
  then have "snd (toggleBombMark (gameField g p)) = gameField g p"
    by (cases "state (gameField g p)") (simp_all add: toggleBombMark_def unsettledCell_def)
  then have "consistent (setCell g p (snd (toggleBombMark (gameField g p)))) [] = consistent g []"
    by (intro consistent_cong) simp_all
  with assms show ?thesis by simp
next
  case True
  let ?g1 = "setCell g p (snd (toggleBombMark (gameField g p)))"
  have new: "state (gameField ?g1 p) = INITIAL \<or> state (gameField ?g1 p) = MARKED_AS_BOMB"
    using True by (auto simp: toggleBombMark_def unsettledCell_def)
  have was: "state (gameField g p) \<noteq> OPENED" using True by (auto simp: unsettledCell_def)
  have other: "gameField ?g1 r = gameField g r" if "r \<noteq> p" for r using that by simp
  have bombs: "isBomb (gameField ?g1 r) = isBomb (gameField g r)" for r
    by (cases "state (gameField g p)") (simp_all add: toggleBombMark_def)
  have num: "getNumberAdjacentBombs ?g1 r = getNumberAdjacentBombs g r" for r
    by (rule getNumberAdjacentBombs_cong) (simp_all only: bombs fieldSize_setCell)
  show ?thesis
    unfolding consistent_def
  proof (intro allI impI conjI ballI)
    fix r assume r: "inRange (fieldSize ?g1) r"
    show "state (gameField ?g1 r) = INITIAL \<or> state (gameField ?g1 r) = MARKED_AS_BOMB
           \<or> state (gameField ?g1 r) = OPENED"
    proof (cases "r = p")
      case True
      then show ?thesis using new by blast
    next
      case False
      then show ?thesis using assms(1) r other unfolding consistent_def by simp
    qed
  next
    fix r assume r: "inRange (fieldSize ?g1) r" "state (gameField ?g1 r) = OPENED"
    then have "r \<noteq> p" using new by auto
    then show "\<not> isBomb (gameField ?g1 r)"
      using assms(1) r other unfolding consistent_def by simp
  next
    fix r q assume r: "inRange (fieldSize ?g1) r" "state (gameField ?g1 r) = OPENED"
      "getNumberAdjacentBombs ?g1 r = 0" and q: "q \<in> set (adjacentPositions (fieldSize ?g1) r)"
    from r(2) have "r \<noteq> p" using new by auto
    with r num other have "state (gameField g r) = OPENED" "getNumberAdjacentBombs g r = 0"
      by simp_all
    with assms(1) r(1) q have "state (gameField g q) = OPENED"
      unfolding consistent_def by simp
    with was have "q \<noteq> p" by auto
    with \<open>state (gameField g q) = OPENED\<close> other
    show "state (gameField ?g1 q) = OPENED \<or> q \<in> set []" by simp
  qed
qed

lemma consistent_started:
  "consistent (snd (startGameIfNeeded g)) ps = consistent g ps"
  by (rule consistent_cong) (simp_all add: startGameIfNeeded_cases)

lemma execute_consistent:
  assumes IH: "gameState g = READY \<or> gameState g = RUNNING \<Longrightarrow> consistent g []"
    and live: "gameState (execute c g) = READY \<or> gameState (execute c g) = RUNNING"
  shows "consistent (execute c g) []"
proof (cases c)
  case (RestartGame rnd)
  then show ?thesis by (simp add: restartGame_def consistent_setBombsOnGameField)
next
  case (OpenCell x y)
  show ?thesis
  proof (cases "gameState g = READY \<or> gameState g = RUNNING")
    case False
    then have "execute c g = g" using OpenCell by (simp add: openCell_gated afterCall_def)
    with live False show ?thesis by simp
  next
    case True
    let ?g1 = "snd (startGameIfNeeded g)"
    have g1: "consistent ?g1 []" "gameState ?g1 = RUNNING" "fieldSize ?g1 = fieldSize g"
      using True IH by (auto simp: consistent_started) (auto simp: startGameIfNeeded_cases)
    show ?thesis
    proof (cases "lookupCell g x y")
      case None
      then have "execute c g = ?g1"
        using True OpenCell by (auto simp: openCell_def startGameIfNeeded_cases afterCall_def)
      with g1 show ?thesis by simp
    next
      case (Some p)
      then have inr: "inRange (fieldSize ?g1) p" using lookupCell_Some [OF Some] g1(3) by simp
      then obtain g2 where run: "openCells ?g1 [p] = Inr g2"
        using openCells_no_error [of "[p]" ?g1] by auto
      have ex: "execute c g = setWinIfNeeded g2"
        using True OpenCell Some run
        by (auto simp: openCell_def startGameIfNeeded_cases afterCall_def)
      with live have "setWinIfNeeded g2 = g2" by (intro setWinIfNeeded_not_won) auto
      with ex live have "gameState g2 \<noteq> LOSS" by auto
      moreover have "consistent ?g1 [p]" using g1(1) by (rule consistent_mono) simp
      ultimately have "consistent g2 []" using openCells_consistent [OF run] by simp
      with ex \<open>setWinIfNeeded g2 = g2\<close> show ?thesis by simp
    qed
  qed
next
  case (ToggleCellBombMark x y)
  show ?thesis
  proof (cases "gameState g = READY \<or> gameState g = RUNNING")
    case False
    then have "execute c g = g"
      using ToggleCellBombMark by (simp add: toggleCellBombMark_gated afterCall_def)
    with live False show ?thesis by simp
  next
    case True
    let ?g1 = "snd (startGameIfNeeded g)"
    have g1: "consistent ?g1 []" "gameState ?g1 = RUNNING" "fieldSize ?g1 = fieldSize g"
      using True IH by (auto simp: consistent_started) (auto simp: startGameIfNeeded_cases)
    show ?thesis
    proof (cases "lookupCell g x y")
      case None
      then have "execute c g = ?g1"
        using True ToggleCellBombMark
        by (auto simp: toggleCellBombMark_def startGameIfNeeded_cases afterCall_def)
      with g1 show ?thesis by simp
    next
      case (Some p)
      then have inr: "inRange (fieldSize ?g1) p" using lookupCell_Some [OF Some] g1(3) by simp
      let ?g2 = "setCell ?g1 p (snd (toggleBombMark (gameField ?g1 p)))"
      have c2: "consistent ?g2 []" using g1(1) inr by (rule consistent_toggle)
      have ex: "execute c g = ?g2 \<or> execute c g = setWinIfNeeded (notifyCellStateChanged ?g2 p)"
        using True ToggleCellBombMark Some
        by (auto simp: toggleCellBombMark_def startGameIfNeeded_cases afterCall_def
              split: prod.splits)
      then show ?thesis
      proof
        assume "execute c g = ?g2"
        with c2 show ?thesis by simp
      next
        assume e: "execute c g = setWinIfNeeded (notifyCellStateChanged ?g2 p)"
        with live have "setWinIfNeeded (notifyCellStateChanged ?g2 p) = notifyCellStateChanged ?g2 p"
          by (intro setWinIfNeeded_not_won) auto
        moreover have "consistent (notifyCellStateChanged ?g2 p) [] = consistent ?g2 []"
          by (rule consistent_cong) simp_all
        ultimately show ?thesis using e c2 by simp
      qed
    qed
  qed
qed

lemma reachable_consistent:
  "reachable g \<Longrightarrow> gameState g = READY \<or> gameState g = RUNNING \<Longrightarrow> consistent g []"
proof (induction rule: reachable.induct)
  case (constructed n b rnd)
  show ?case by (simp add: Minesweeper_def consistent_setBombsOnGameField)
next
  case (commanded g c)
  then show ?case by (intro execute_consistent) blast+
qed

section \<open>The flood reveals the region\<close>

lemma zero_adjacent_no_bomb:
  "getNumberAdjacentBombs g p = 0 \<Longrightarrow> q \<in> set (adjacentPositions (fieldSize g) p) \<Longrightarrow>
   \<not> isBomb (gameField g q)"
  by (auto simp: getNumberAdjacentBombs_eq filter_empty_conv)

lemma zeroRegion_zero:
  "p \<in> zeroRegion g c \<Longrightarrow> getNumberAdjacentBombs g c = 0 \<Longrightarrow> getNumberAdjacentBombs g p = 0"
  by (induction rule: zeroRegion.induct) simp_all

lemma zeroRegion_no_bomb:
  "p \<in> zeroRegion g c \<Longrightarrow> getNumberAdjacentBombs g c = 0 \<Longrightarrow> \<not> isBomb (gameField g c) \<Longrightarrow>
   \<not> isBomb (gameField g p)"
proof (induction rule: zeroRegion.induct)
  case start
  then show ?case by simp
next
  case (step p q)
  then have "getNumberAdjacentBombs g p = 0" by (simp add: zeroRegion_zero)
  then show ?case using step.hyps(2) by (rule zero_adjacent_no_bomb)
qed

lemma floodSet_no_bomb:
  assumes "p \<in> floodSet g c" "getNumberAdjacentBombs g c = 0" "\<not> isBomb (gameField g c)"
  shows "\<not> isBomb (gameField g p)"
  using assms
  by (auto simp: floodSet_def dest: zeroRegion_no_bomb zero_adjacent_no_bomb zeroRegion_zero)

lemma floodSet_closed:
  assumes "p \<in> floodSet g c" "getNumberAdjacentBombs g p = 0"
  shows "set (adjacentPositions (fieldSize g) p) \<subseteq> floodSet g c"
proof -
  have "p \<in> zeroRegion g c"
    using assms by (auto simp: floodSet_def intro: zeroRegion.step)
  then show ?thesis by (auto simp: floodSet_def)
qed

lemma openOrDefuse_settled_same: "\<not> unsettledCell c \<Longrightarrow> snd (openOrDefuse c) = c"
  by (simp add: openOrDefuse_cases)

lemma openOrDefuse_marked_bomb:
  "unsettledCell c \<Longrightarrow> \<not> preventsWin c \<Longrightarrow>
   state c = MARKED_AS_BOMB \<and> isBomb c \<and> snd (openOrDefuse c) = c\<lparr>state := DEFUSED\<rparr>"
  by (auto simp: openOrDefuse_cases preventsWin_def unsettledCell_def)

text \<open>
  Claim C5, as amended. In a reachable RUNNING game, \<open>openCell\<close> on a cell of the grid that
  has no adjacent bombs and holds no bomb itself returns with every cell of the flood set
  OPENED: the connected region of cells without adjacent bombs that contains the cell,
  and the cells that border the region. A cell outside that set is left as it was, with one
  exception: when the call completes the win, the cells outside the set that are marked and
  hold a bomb become DEFUSED.
\<close>

theorem flood_reveals_region:
  assumes reach: "reachable g" and run: "gameState g = RUNNING"
    and c: "lookupCell g x y = Some c"
    and zero: "getNumberAdjacentBombs g c = 0"
    and nobomb: "\<not> isBomb (gameField g c)"
  shows "\<exists>g'. openCell g x y = Inr g'
           \<and> (\<forall>p \<in> floodSet g c. state (gameField g' p) = OPENED)
           \<and> (\<forall>p. p \<notin> floodSet g c \<longrightarrow>
                 gameField g' p = gameField g p
                 \<or> (gameState g' = WIN \<and> state (gameField g p) = MARKED_AS_BOMB
                     \<and> isBomb (gameField g p)
                     \<and> gameField g' p = (gameField g p)\<lparr>state := DEFUSED\<rparr>))"
proof -
  let ?R = "floodSet g c"
  have inr: "inRange (fieldSize g) c" using lookupCell_Some [OF c] by simp
  then obtain g2 where open2: "openCells g [c] = Inr g2"
    using openCells_no_error [of "[c]" g] by auto
  have res: "openCell g x y = Inr (setWinIfNeeded g2)"
    using run c open2 by (simp add: openCell_def startGameIfNeeded_cases)
  \<comment> \<open>the recursive open stays inside the set\<close>
  have cR: "set [c] \<subseteq> ?R" by (simp add: floodSet_def zeroRegion.start)
  have nb: "\<forall>p \<in> ?R. \<not> isBomb (gameField g p)"
    using floodSet_no_bomb [OF _ zero nobomb] by blast
  have cl: "\<forall>p \<in> ?R. getNumberAdjacentBombs g p = 0 \<longrightarrow>
              set (adjacentPositions (fieldSize g) p) \<subseteq> ?R"
    by (blast dest: floodSet_closed)
  from openCells_inside [OF open2 cR nb cl]
  have st2: "gameState g2 = RUNNING" and out2: "\<And>q. q \<notin> ?R \<Longrightarrow> gameField g2 q = gameField g q"
    using run by simp_all
  \<comment> \<open>and it opens all of it\<close>
  have "consistent g [c]"
    using reachable_consistent [OF reach] run by (auto intro: consistent_mono)
  from openCells_consistent [OF open2 this] st2
  have cons2: "consistent g2 []" and c2: "state (gameField g2 c) = OPENED" by simp_all
  have size2: "fieldSize g2 = fieldSize g"
    using frame_openCells [OF open2] by simp
  have num2: "getNumberAdjacentBombs g2 p = getNumberAdjacentBombs g p" for p
    using open2 by (rule getNumberAdjacentBombs_openCells)
  have around: "state (gameField g2 q) = OPENED"
    if "inRange (fieldSize g) p" "state (gameField g2 p) = OPENED" "getNumberAdjacentBombs g p = 0"
      "q \<in> set (adjacentPositions (fieldSize g) p)" for p q
    using cons2 that unfolding consistent_def by (simp add: size2 num2)
  have region: "state (gameField g2 p) = OPENED \<and> inRange (fieldSize g) p" if "p \<in> zeroRegion g c" for p
    using that
  proof (induction rule: zeroRegion.induct)
    case start
    show ?case using c2 inr by simp
  next
    case (step p q)
    then have "getNumberAdjacentBombs g p = 0" using zero by (simp add: zeroRegion_zero)
    with step show ?case by (auto intro: around inRange_adjacent)
  qed
  have all2: "state (gameField g2 p) = OPENED" if "p \<in> ?R" for p
  proof -
    from that consider "p \<in> zeroRegion g c"
      | r where "r \<in> zeroRegion g c" "p \<in> set (adjacentPositions (fieldSize g) r)"
      by (auto simp: floodSet_def)
    then show ?thesis
    proof cases
      case 1
      then show ?thesis using region by simp
    next
      case 2
      have "state (gameField g2 r) = OPENED" "inRange (fieldSize g) r"
        using region [OF 2(1)] by simp_all
      moreover have "getNumberAdjacentBombs g r = 0"
        using 2(1) zero by (rule zeroRegion_zero)
      ultimately show ?thesis using 2(2) around by blast
    qed
  qed
  \<comment> \<open>the check for the win\<close>
  let ?g' = "setWinIfNeeded g2"
  have final: "gameField ?g' p = gameField g2 p
               \<or> (gameState ?g' = WIN \<and> unsettledCell (gameField g2 p) \<and> \<not> preventsWin (gameField g2 p)
                   \<and> gameField ?g' p = snd (openOrDefuse (gameField g2 p)))" for p
  proof (cases "gameState ?g' = WIN")
    case False
    then show ?thesis by (simp add: setWinIfNeeded_not_won)
  next
    case True
    note won = setWinIfNeeded_won [OF st2 True]
    show ?thesis
    proof (cases "inRange (fieldSize g2) p \<and> unsettledCell (gameField g2 p)")
      case True
      with won \<open>gameState ?g' = WIN\<close> show ?thesis by simp
    next
      case False
      with won(2) [of p] show ?thesis by (auto simp: openOrDefuse_settled_same)
    qed
  qed
  have "state (gameField ?g' p) = OPENED" if "p \<in> ?R" for p
    using final [of p] all2 [OF that] by (auto simp: unsettledCell_def)
  moreover have "gameField ?g' p = gameField g p
                 \<or> (gameState ?g' = WIN \<and> state (gameField g p) = MARKED_AS_BOMB
                     \<and> isBomb (gameField g p)
                     \<and> gameField ?g' p = (gameField g p)\<lparr>state := DEFUSED\<rparr>)"
    if "p \<notin> ?R" for p
    using final [of p] out2 [OF that] by (auto dest: openOrDefuse_marked_bomb)
  ultimately show ?thesis using res by blast
qed

lemmas evaluation =
  markedCorner_def originDraws_def play_def afterCall_def
  Minesweeper_def initiated_def setBombsOnGameField_def placement_def
  placeBombs.simps drawPosition_def bombCanBeSetHere_iff allAdjacentCellsAreBombs_iff
  clearCells_fold clear_def allPositions_def
  toggleCellBombMark_def startGameIfNeeded_cases lookupCell_def
  toggleBombMark_def setWinIfNeeded_def forEachCell_def
  openOrDetonate_def openOrDoOtherIfBomb_def
  openCells.simps(2) inRange_def newCell_def
  applyAndNotify_def setCell_def setIsBomb_def notifyCellStateChanged_def getCellData_def
  setGameState_def notifyGameStateChanged_def
  getNumberAdjacentBombs_eq adjacentPositions_def cellsOfRow_def Let_def upt_rec

lemma reachable_markedCorner: "reachable markedCorner"
proof -
  have "markedCorner = execute (ToggleCellBombMark 0 0) (Minesweeper 3 1 originDraws)"
    by (simp add: markedCorner_def play_def del: execute.simps)
  moreover have "reachable (execute (ToggleCellBombMark 0 0) (Minesweeper 3 1 originDraws))"
    by (intro reachable.commanded reachable.constructed)
  ultimately show ?thesis by simp
qed

lemma markedCorner_facts:
  "gameState markedCorner = RUNNING" "lookupCell markedCorner 2 2 = Some (2, 2)"
  "getNumberAdjacentBombs markedCorner (2, 2) = 0" "\<not> isBomb (gameField markedCorner (2, 2))"
  "state (gameField markedCorner (0, 0)) = MARKED_AS_BOMB" "fieldSize markedCorner = 3"
  "isBomb (gameField markedCorner (0, 0))"
  by (simp_all add: evaluation)

lemma flood_markedCorner:
  "\<exists>g2. openCells markedCorner [(2, 2)] = Inr g2 \<and> gameState g2 = RUNNING \<and> fieldSize g2 = 3
     \<and> gameField g2 (0, 0) = \<lparr>isBomb = True, state = MARKED_AS_BOMB\<rparr>
     \<and> state (gameField g2 (0, 1)) = OPENED \<and> state (gameField g2 (0, 2)) = OPENED
     \<and> state (gameField g2 (1, 0)) = OPENED \<and> state (gameField g2 (1, 1)) = OPENED
     \<and> state (gameField g2 (1, 2)) = OPENED \<and> state (gameField g2 (2, 0)) = OPENED
     \<and> state (gameField g2 (2, 1)) = OPENED \<and> state (gameField g2 (2, 2)) = OPENED"
  by (simp add: evaluation)

lemma inRange_three:
  "inRange 3 q \<longleftrightarrow> q = (0, 0) \<or> q = (0, 1) \<or> q = (0, 2) \<or> q = (1, 0) \<or> q = (1, 1)
     \<or> q = (1, 2) \<or> q = (2, 0) \<or> q = (2, 1) \<or> q = (2, 2)"
  by (cases q) (auto simp: inRange_def less_Suc_eq numeral_3_eq_3)

theorem flood_reveals_region_witness:
  "reachable markedCorner \<and> gameState markedCorner = RUNNING
   \<and> lookupCell markedCorner 2 2 = Some (2, 2)
   \<and> getNumberAdjacentBombs markedCorner (2, 2) = 0
   \<and> \<not> isBomb (gameField markedCorner (2, 2))
   \<and> (\<exists>g'. openCell markedCorner 2 2 = Inr g'
          \<and> state (gameField g' (2, 2)) = OPENED \<and> state (gameField g' (1, 1)) = OPENED)"
proof -
  note h = reachable_markedCorner markedCorner_facts(1-4)
  have m1: "(2, 2) \<in> floodSet markedCorner (2, 2)"
    by (simp add: floodSet_def zeroRegion.start)
  have "(1, 1) \<in> set (adjacentPositions (fieldSize markedCorner) (2, 2))"
    by (simp add: markedCorner_facts(6) adjacent_iff inRange_def)
  then have m2: "(1, 1) \<in> floodSet markedCorner (2, 2)"
    unfolding floodSet_def using zeroRegion.start [of "(2, 2)" markedCorner] by blast
  from flood_reveals_region [OF h] m1 m2
  have "\<exists>g'. openCell markedCorner 2 2 = Inr g'
          \<and> state (gameField g' (2, 2)) = OPENED \<and> state (gameField g' (1, 1)) = OPENED"
    by blast
  with h show ?thesis by blast
qed

text \<open>
  Claim C5 as stated fails where it says that no cell outside the set changes: on the 3 by 3
  grid with the bomb in the corner \<open>(0, 0)\<close> marked, opening \<open>(2, 2)\<close> floods the eight
  other cells, which wins the game, and the win turns the marked corner, outside the set,
  to DEFUSED.
\<close>

theorem flood_defuses_outside_counterexample:
  "reachable markedCorner \<and> gameState markedCorner = RUNNING
   \<and> lookupCell markedCorner 2 2 = Some (2, 2)
   \<and> getNumberAdjacentBombs markedCorner (2, 2) = 0
   \<and> \<not> isBomb (gameField markedCorner (2, 2))
   \<and> openCell markedCorner 2 2 = Inr (execute (OpenCell 2 2) markedCorner)
   \<and> (0, 0) \<notin> floodSet markedCorner (2, 2)
   \<and> state (gameField markedCorner (0, 0)) = MARKED_AS_BOMB
   \<and> state (gameField (execute (OpenCell 2 2) markedCorner) (0, 0)) = DEFUSED"
proof -
  note h = markedCorner_facts
  from flood_markedCorner obtain g2 where run: "openCells markedCorner [(2, 2)] = Inr g2"
    and g2: "gameState g2 = RUNNING" "fieldSize g2 = 3"
      "gameField g2 (0, 0) = \<lparr>isBomb = True, state = MARKED_AS_BOMB\<rparr>"
    and opened: "state (gameField g2 (0, 1)) = OPENED" "state (gameField g2 (0, 2)) = OPENED"
      "state (gameField g2 (1, 0)) = OPENED" "state (gameField g2 (1, 1)) = OPENED"
      "state (gameField g2 (1, 2)) = OPENED" "state (gameField g2 (2, 0)) = OPENED"
      "state (gameField g2 (2, 1)) = OPENED" "state (gameField g2 (2, 2)) = OPENED"
    by blast
  have ret: "openCell markedCorner 2 2 = Inr (execute (OpenCell 2 2) markedCorner)"
    using h(2) by (intro openCell_returns) simp
  have "openCell markedCorner 2 2 = Inr (setWinIfNeeded g2)"
    using h(1,2) run by (simp add: openCell_def startGameIfNeeded_cases)
  with ret have ex: "execute (OpenCell 2 2) markedCorner = setWinIfNeeded g2" by simp
  have "\<not> preventsWin (gameField g2 p)" if "inRange (fieldSize g2) p" for p
    using that g2 opened unfolding g2(2) inRange_three by (auto simp: preventsWin_def)
  then have "setWinIfNeeded g2
      = setGameState (fold (applyAndNotify openOrDefuse) (allPositions (fieldSize g2)) g2) WIN"
    using g2(1) by (simp add: setWinIfNeeded_cases)
  then have "state (gameField (setWinIfNeeded g2) (0, 0)) = DEFUSED"
    using g2
    by (simp add: gameField_fold_applyAndNotify distinct_allPositions set_allPositions
          inRange_def openOrDefuse_cases unsettledCell_def)
  with ex have final: "state (gameField (execute (OpenCell 2 2) markedCorner) (0, 0)) = DEFUSED"
    by simp
  have out: "(0, 0) \<notin> floodSet markedCorner (2, 2)"
    using floodSet_no_bomb [OF _ h(3,4)] h(7) by blast
  from reachable_markedCorner h(1-5) ret out final show ?thesis by blast
qed

end
